theory Spec2Isabelle
  imports Main
begin

section \<open>JavaScript values and arrays\<close>

text \<open>
  The two programs store three kinds of value in a board cell: \<open>undefined\<close> (what
  \<open>Array.from({ length: n })\<close> fills a row with), a number (the player number of
  \<open>connect4.js\<close>) and a reference to a \<open>Player\<close> object (the second variant). An
  object is known by its address, since \<open>===\<close> on objects compares references.
\<close>

datatype jsval = Undefined | Num int | Obj nat

text \<open>JavaScript truthiness, as used by \<open>!cell\<close> and \<open>every(cell => cell)\<close>.\<close>

fun truthy :: "jsval \<Rightarrow> bool" where
  "truthy Undefined = False"
| "truthy (Num n) = (n \<noteq> 0)"
| "truthy (Obj r) = True"

datatype error = TypeError | RangeError

text \<open>
  A JavaScript array is an object: a table of properties and a \<open>length\<close>. The keys that
  occur here are the integers. A key \<open>k\<close> with \<open>0 \<le> k < 2^32 - 1\<close> is an array index,
  and writing it raises \<open>length\<close> to at least \<open>k + 1\<close>; any other key is a plain property.
  A key that was never written is absent (a hole when it lies below \<open>length\<close>).
\<close>

record jsarray =
  props :: "int \<Rightarrow> jsval option"
  len :: nat

definition isIndex :: "int \<Rightarrow> bool" where
  "isIndex k = (0 \<le> k \<and> k < 4294967295)"

text \<open>\<open>a[k]\<close>: an absent key reads as \<open>undefined\<close>.\<close>

definition aget :: "jsarray \<Rightarrow> int \<Rightarrow> jsval" where
  "aget a k = (case props a k of None \<Rightarrow> Undefined | Some v \<Rightarrow> v)"

text \<open>\<open>a[k] = v\<close>.\<close>

definition aset :: "jsarray \<Rightarrow> int \<Rightarrow> jsval \<Rightarrow> jsarray" where
  "aset a k v =
     a\<lparr>props := (props a)(k := Some v),
       len := (if isIndex k then max (len a) (nat k + 1) else len a)\<rparr>"

text \<open>\<open>a.every(p)\<close>: visits the indices below \<open>length\<close> in order and skips holes.\<close>

definition aevery :: "(jsval \<Rightarrow> bool) \<Rightarrow> jsarray \<Rightarrow> bool" where
  "aevery p a =
     list_all (\<lambda>i. case props a (int i) of None \<Rightarrow> True | Some v \<Rightarrow> p v) [0..<len a]"

text \<open>
  \<open>Array.from({ length: n })\<close>: \<open>n\<close> elements, each \<open>undefined\<close> and each present;
  a length above \<open>2^32 - 1\<close> is a RangeError.
\<close>

definition Array_from :: "nat \<Rightarrow> error + jsarray" where
  "Array_from n =
     (if 4294967295 < n then Inl RangeError
      else Inr \<lparr>props = (\<lambda>k. if 0 \<le> k \<and> k < int n then Some Undefined else None),
                len = n\<rparr>)"

text \<open>\<open>a || b\<close> on results that may be an exception: \<open>b\<close> is not run when \<open>a\<close> is true.\<close>

definition orE :: "error + bool \<Rightarrow> error + bool \<Rightarrow> error + bool" where
  "orE a b = (case a of Inl e \<Rightarrow> Inl e | Inr True \<Rightarrow> Inr True | Inr False \<Rightarrow> b)"

text \<open>\<open>cells.every(p)\<close> over an array literal, where \<open>p\<close> may raise.\<close>

fun everyE :: "('a \<Rightarrow> error + bool) \<Rightarrow> 'a list \<Rightarrow> error + bool" where
  "everyE p [] = Inr True"
| "everyE p (c # cs) =
     (case p c of Inl e \<Rightarrow> Inl e | Inr False \<Rightarrow> Inr False | Inr True \<Rightarrow> everyE p cs)"

text \<open>
  What a call of \<open>handleClick\<close> shows to the page: it returned at once (the game was
  over, or \<open>findSpotForCol\<close> gave \<open>null\<close>), it ran to the end and switched players, it
  called \<open>endGame\<close> with a message, or it raised an exception.
\<close>

datatype alert = PlayerWon int | Tie

datatype outcome = Ignored | Moved | Ended alert | Threw error

text \<open>
  The four directions of a run: the lists \<open>horiz\<close>, \<open>vert\<close>, \<open>diagDR\<close> and \<open>diagDL\<close> of
  \<open>checkForWin\<close>.
\<close>

datatype direction = Horizontal | Vertical | DiagDownRight | DiagDownLeft

section \<open>The game of \<open>connect4.js\<close>: players are the numbers 1 and 2\<close>

record game =
  height :: nat
  width :: nat
  currPlayer :: int
  board :: "jsarray list"
  gameOver :: bool

text \<open>The constructor; \<open>startGame\<close> only registers the listener of the start button.\<close>

definition newGame :: "nat \<Rightarrow> nat \<Rightarrow> game" where
  "newGame h w = \<lparr>height = h, width = w, currPlayer = 1, board = [], gameOver = False\<rparr>"

definition resetGame :: "game \<Rightarrow> game" where
  "resetGame g =
     (let g1 = g\<lparr>board := []\<rparr>
      in if gameOver g1 then g1\<lparr>gameOver := False\<rparr> else g1)"

text \<open>\<open>makeBoard\<close>: the loop pushes one fresh row per iteration.\<close>

fun makeBoardLoop :: "nat \<Rightarrow> game \<Rightarrow> error + game" where
  "makeBoardLoop 0 g = Inr g"
| "makeBoardLoop (Suc n) g =
     (case Array_from (width g) of
        Inl e \<Rightarrow> Inl e
      | Inr r \<Rightarrow> makeBoardLoop n (g\<lparr>board := board g @ [r]\<rparr>))"

definition makeBoard :: "game \<Rightarrow> error + game" where
  "makeBoard g = makeBoardLoop (height g) g"

text \<open>
  The listener of the start button (the arrow function in \<open>startGame\<close>).
  \<open>makeHtmlBoard\<close> builds the table in the page: one cell with id \<open>y-x\<close> for every
  \<open>y < height\<close> and \<open>x < width\<close>, and nothing of the game's fields.
\<close>

definition startClick :: "game \<Rightarrow> error + game" where
  "startClick g = makeBoard (if length (board g) \<noteq> 0 then resetGame g else g)"

text \<open>
  \<open>this.board[y][x]\<close>: reading a property of \<open>undefined\<close>, when the board has no row
  \<open>y\<close>, is a TypeError.
\<close>

definition getCell :: "game \<Rightarrow> nat \<Rightarrow> int \<Rightarrow> error + jsval" where
  "getCell g y x =
     (if y < length (board g) then Inr (aget (board g ! y) x) else Inl TypeError)"

text \<open>\<open>this.board[y][x] = v\<close>.\<close>

definition setCell :: "game \<Rightarrow> nat \<Rightarrow> int \<Rightarrow> jsval \<Rightarrow> error + game" where
  "setCell g y x v =
     (if y < length (board g)
      then Inr (g\<lparr>board := (board g)[y := aset (board g ! y) x v]\<rparr>)
      else Inl TypeError)"

text \<open>
  \<open>findSpotForCol\<close>: the loop runs \<open>y\<close> from \<open>height - 1\<close> down to \<open>0\<close>; the counter of
  \<open>findSpotLoop\<close> is \<open>y + 1\<close>. \<open>None\<close> is the \<open>null\<close> of the source.
\<close>

fun findSpotLoop :: "game \<Rightarrow> int \<Rightarrow> nat \<Rightarrow> error + nat option" where
  "findSpotLoop g x 0 = Inr None"
| "findSpotLoop g x (Suc y) =
     (case getCell g y x of
        Inl e \<Rightarrow> Inl e
      | Inr c \<Rightarrow> if \<not> truthy c then Inr (Some y) else findSpotLoop g x y)"

definition findSpotForCol :: "game \<Rightarrow> int \<Rightarrow> error + nat option" where
  "findSpotForCol g x = findSpotLoop g x (height g)"

text \<open>
  \<open>placeInTable\<close> changes the page only. \<open>document.getElementById\<close> finds the cell
  \<open>y-x\<close> exactly when \<open>makeHtmlBoard\<close> made it; otherwise it gives \<open>null\<close>, and
  \<open>spot.append\<close> is a TypeError.
\<close>

definition placeInTable :: "game \<Rightarrow> nat \<Rightarrow> int \<Rightarrow> error + unit" where
  "placeInTable g y x =
     (if y < height g \<and> 0 \<le> x \<and> x < int (width g) then Inr () else Inl TypeError)"

definition endGame :: "game \<Rightarrow> game" where
  "endGame g = g\<lparr>gameOver := True\<rparr>"

text \<open>\<open>_win\<close>: the callback of \<open>every\<close>, with its chain of \<open>&&\<close>, then the four cells.\<close>

definition winCell :: "game \<Rightarrow> nat \<times> int \<Rightarrow> error + bool" where
  "winCell g c =
     (case c of (y, x) \<Rightarrow>
        if 0 \<le> y \<and> y < height g \<and> 0 \<le> x \<and> x < int (width g)
        then (case getCell g y x of
                Inl e \<Rightarrow> Inl e
              | Inr v \<Rightarrow> Inr (v = Num (currPlayer g)))
        else Inr False)"

definition win :: "game \<Rightarrow> (nat \<times> int) list \<Rightarrow> error + bool" where
  "win g cells = everyE (winCell g) cells"

definition horiz :: "nat \<Rightarrow> int \<Rightarrow> (nat \<times> int) list" where
  "horiz y x = [(y, x), (y, x + 1), (y, x + 2), (y, x + 3)]"

definition vert :: "nat \<Rightarrow> int \<Rightarrow> (nat \<times> int) list" where
  "vert y x = [(y, x), (y + 1, x), (y + 2, x), (y + 3, x)]"

definition diagDR :: "nat \<Rightarrow> int \<Rightarrow> (nat \<times> int) list" where
  "diagDR y x = [(y, x), (y + 1, x + 1), (y + 2, x + 2), (y + 3, x + 3)]"

definition diagDL :: "nat \<Rightarrow> int \<Rightarrow> (nat \<times> int) list" where
  "diagDL y x = [(y, x), (y + 1, x - 1), (y + 2, x - 2), (y + 3, x - 3)]"

text \<open>The condition of the \<open>if\<close> in the inner loop of \<open>checkForWin\<close>.\<close>

definition winHere :: "game \<Rightarrow> nat \<Rightarrow> int \<Rightarrow> error + bool" where
  "winHere g y x =
     orE (win g (horiz y x)) (orE (win g (vert y x))
       (orE (win g (diagDR y x)) (win g (diagDL y x))))"

text \<open>
  \<open>checkForWin\<close>: the inner loop over \<open>x\<close> and the outer loop over \<open>y\<close>, each over the
  values still to visit. Falling out of both loops returns \<open>undefined\<close>, which the
  caller's \<open>if\<close> reads as false.
\<close>

fun checkCols :: "game \<Rightarrow> nat \<Rightarrow> nat list \<Rightarrow> error + bool" where
  "checkCols g y [] = Inr False"
| "checkCols g y (x # xs) =
     (case winHere g y (int x) of
        Inl e \<Rightarrow> Inl e
      | Inr True \<Rightarrow> Inr True
      | Inr False \<Rightarrow> checkCols g y xs)"

fun checkRows :: "game \<Rightarrow> nat list \<Rightarrow> error + bool" where
  "checkRows g [] = Inr False"
| "checkRows g (y # ys) =
     (case checkCols g y [0..<width g] of
        Inl e \<Rightarrow> Inl e
      | Inr True \<Rightarrow> Inr True
      | Inr False \<Rightarrow> checkRows g ys)"

definition checkForWin :: "game \<Rightarrow> error + bool" where
  "checkForWin g = checkRows g [0..<height g]"

text \<open>
  The same loops once more, now keeping a log: besides the result they return the cell
  lists on which \<open>_win\<close> was called, in the order of the calls, each named by its start
  cell and its direction. \<open>winHereLog\<close> is the chain of \<open>||\<close>, which stops at the first
  call that is true or raises.
\<close>

definition cellsOf :: "direction \<Rightarrow> nat \<Rightarrow> int \<Rightarrow> (nat \<times> int) list" where
  "cellsOf d y x =
     (case d of Horizontal \<Rightarrow> horiz y x | Vertical \<Rightarrow> vert y x
      | DiagDownRight \<Rightarrow> diagDR y x | DiagDownLeft \<Rightarrow> diagDL y x)"

fun winHereLog ::
  "game \<Rightarrow> nat \<Rightarrow> int \<Rightarrow> direction list \<Rightarrow> (error + bool) \<times> (nat \<times> int \<times> direction) list"
where
  "winHereLog g y x [] = (Inr False, [])"
| "winHereLog g y x (d # ds) =
     (case win g (cellsOf d y x) of
        Inl e \<Rightarrow> (Inl e, [(y, x, d)])
      | Inr True \<Rightarrow> (Inr True, [(y, x, d)])
      | Inr False \<Rightarrow> (case winHereLog g y x ds of (r, l) \<Rightarrow> (r, (y, x, d) # l)))"

fun checkColsLog ::
  "game \<Rightarrow> nat \<Rightarrow> nat list \<Rightarrow> (error + bool) \<times> (nat \<times> int \<times> direction) list"
where
  "checkColsLog g y [] = (Inr False, [])"
| "checkColsLog g y (x # xs) =
     (case winHereLog g y (int x) [Horizontal, Vertical, DiagDownRight, DiagDownLeft] of
        (Inl e, l) \<Rightarrow> (Inl e, l)
      | (Inr True, l) \<Rightarrow> (Inr True, l)
      | (Inr False, l) \<Rightarrow> (case checkColsLog g y xs of (r, l') \<Rightarrow> (r, l @ l')))"

fun checkRowsLog ::
  "game \<Rightarrow> nat list \<Rightarrow> (error + bool) \<times> (nat \<times> int \<times> direction) list"
where
  "checkRowsLog g [] = (Inr False, [])"
| "checkRowsLog g (y # ys) =
     (case checkColsLog g y [0..<width g] of
        (Inl e, l) \<Rightarrow> (Inl e, l)
      | (Inr True, l) \<Rightarrow> (Inr True, l)
      | (Inr False, l) \<Rightarrow> (case checkRowsLog g ys of (r, l') \<Rightarrow> (r, l @ l')))"

definition checkForWinLog :: "game \<Rightarrow> (error + bool) \<times> (nat \<times> int \<times> direction) list" where
  "checkForWinLog g = checkRowsLog g [0..<height g]"

text \<open>The tie check: \<open>this.board.every(row => row.every(cell => cell))\<close>.\<close>

definition boardFull :: "game \<Rightarrow> bool" where
  "boardFull g = list_all (aevery truthy) (board g)"

text \<open>
  \<open>handleClick\<close>, with \<open>x\<close> the number \<open>+evt.target.id\<close> read from the id of the clicked
  element; the column tops made by \<open>makeHtmlBoard\<close> have the ids \<open>0\<close> to \<open>width - 1\<close>.
  The model takes any integer. An exception leaves the fields as they were when it was
  raised: the cell written before \<open>placeInTable\<close> stays written.
\<close>

definition handleClick :: "game \<Rightarrow> int \<Rightarrow> outcome \<times> game" where
  "handleClick g x =
     (if \<not> gameOver g then
        (case findSpotForCol g x of
           Inl e \<Rightarrow> (Threw e, g)
         | Inr None \<Rightarrow> (Ignored, g)
         | Inr (Some y) \<Rightarrow>
             (case setCell g y x (Num (currPlayer g)) of
                Inl e \<Rightarrow> (Threw e, g)
              | Inr g1 \<Rightarrow>
                  (case placeInTable g1 y x of
                     Inl e \<Rightarrow> (Threw e, g1)
                   | Inr u \<Rightarrow>
                       (case checkForWin g1 of
                          Inl e \<Rightarrow> (Threw e, g1)
                        | Inr True \<Rightarrow> (Ended (PlayerWon (currPlayer g1)), endGame g1)
                        | Inr False \<Rightarrow>
                            if boardFull g1 then (Ended Tie, endGame g1)
                            else (Moved,
                                  g1\<lparr>currPlayer := (if currPlayer g1 = 1 then 2 else 1)\<rparr>)))))
      else (Ignored, g))"

text \<open>A sequence of clicks, one call of \<open>handleClick\<close> after the other.\<close>

fun play :: "game \<Rightarrow> int list \<Rightarrow> outcome list \<times> game" where
  "play g [] = ([], g)"
| "play g (x # xs) =
     (case handleClick g x of (out, g1) \<Rightarrow>
        (case play g1 xs of (outs, g2) \<Rightarrow> (out # outs, g2)))"

section \<open>The second variant: players are \<open>Player\<close> objects\<close>

text \<open>
  \<open>new Player(color)\<close> allocates an object. The heap lists the colours of the objects
  allocated so far; an object's reference is its position in the list, so two objects
  made from the same colour are still two different references.
\<close>

record gameP =
  heightP :: nat
  widthP :: nat
  players :: "nat list"
  currPlayerP :: int
  boardP :: "jsarray list"
  gameOverP :: bool
  heap :: "string list"

definition newPlayer :: "string list \<Rightarrow> string \<Rightarrow> nat \<times> string list" where
  "newPlayer hp color = (length hp, hp @ [color])"

definition newGameP :: "nat \<Rightarrow> nat \<Rightarrow> gameP" where
  "newGameP h w =
     \<lparr>heightP = h, widthP = w, players = [], currPlayerP = 0, boardP = [],
      gameOverP = False, heap = []\<rparr>"

definition resetGameP :: "gameP \<Rightarrow> gameP" where
  "resetGameP g =
     (let g1 = g\<lparr>boardP := [], players := [], currPlayerP := 0\<rparr>
      in if gameOverP g1 then g1\<lparr>gameOverP := False\<rparr> else g1)"

text \<open>\<open>setPlayers\<close>; the two colours are the values of the inputs \<open>#p1\<close> and \<open>#p2\<close>.\<close>

definition setPlayers :: "gameP \<Rightarrow> string \<Rightarrow> string \<Rightarrow> gameP" where
  "setPlayers g c1 c2 =
     (case newPlayer (heap g) c1 of (p1, hp1) \<Rightarrow>
        (case newPlayer hp1 c2 of (p2, hp2) \<Rightarrow>
           g\<lparr>players := players g @ [p1, p2], heap := hp2\<rparr>))"

fun makeBoardLoopP :: "nat \<Rightarrow> gameP \<Rightarrow> error + gameP" where
  "makeBoardLoopP 0 g = Inr g"
| "makeBoardLoopP (Suc n) g =
     (case Array_from (widthP g) of
        Inl e \<Rightarrow> Inl e
      | Inr r \<Rightarrow> makeBoardLoopP n (g\<lparr>boardP := boardP g @ [r]\<rparr>))"

definition makeBoardP :: "gameP \<Rightarrow> error + gameP" where
  "makeBoardP g = makeBoardLoopP (heightP g) g"

definition startClickP :: "gameP \<Rightarrow> string \<Rightarrow> string \<Rightarrow> error + gameP" where
  "startClickP g c1 c2 =
     makeBoardP (setPlayers (if length (boardP g) \<noteq> 0 then resetGameP g else g) c1 c2)"

text \<open>\<open>this.players[this.currPlayer]\<close>; out of the array's range it is \<open>undefined\<close>.\<close>

definition playerNow :: "gameP \<Rightarrow> jsval" where
  "playerNow g =
     (if 0 \<le> currPlayerP g \<and> currPlayerP g < int (length (players g))
      then Obj (players g ! nat (currPlayerP g)) else Undefined)"

definition getCellP :: "gameP \<Rightarrow> nat \<Rightarrow> int \<Rightarrow> error + jsval" where
  "getCellP g y x =
     (if y < length (boardP g) then Inr (aget (boardP g ! y) x) else Inl TypeError)"

definition setCellP :: "gameP \<Rightarrow> nat \<Rightarrow> int \<Rightarrow> jsval \<Rightarrow> error + gameP" where
  "setCellP g y x v =
     (if y < length (boardP g)
      then Inr (g\<lparr>boardP := (boardP g)[y := aset (boardP g ! y) x v]\<rparr>)
      else Inl TypeError)"

fun findSpotLoopP :: "gameP \<Rightarrow> int \<Rightarrow> nat \<Rightarrow> error + nat option" where
  "findSpotLoopP g x 0 = Inr None"
| "findSpotLoopP g x (Suc y) =
     (case getCellP g y x of
        Inl e \<Rightarrow> Inl e
      | Inr c \<Rightarrow> if \<not> truthy c then Inr (Some y) else findSpotLoopP g x y)"

definition findSpotForColP :: "gameP \<Rightarrow> int \<Rightarrow> error + nat option" where
  "findSpotForColP g x = findSpotLoopP g x (heightP g)"

text \<open>
  \<open>placeInTable\<close> of this variant first reads \<open>this.players[this.currPlayer].color\<close>,
  a TypeError when there is no such player, and then looks the cell up as before.
\<close>

definition placeInTableP :: "gameP \<Rightarrow> nat \<Rightarrow> int \<Rightarrow> error + unit" where
  "placeInTableP g y x =
     (if playerNow g = Undefined then Inl TypeError
      else if y < heightP g \<and> 0 \<le> x \<and> x < int (widthP g) then Inr ()
      else Inl TypeError)"

definition endGameP :: "gameP \<Rightarrow> gameP" where
  "endGameP g = g\<lparr>gameOverP := True\<rparr>"

definition winCellP :: "gameP \<Rightarrow> nat \<times> int \<Rightarrow> error + bool" where
  "winCellP g c =
     (case c of (y, x) \<Rightarrow>
        if 0 \<le> y \<and> y < heightP g \<and> 0 \<le> x \<and> x < int (widthP g)
        then (case getCellP g y x of
                Inl e \<Rightarrow> Inl e
              | Inr v \<Rightarrow> Inr (v = playerNow g))
        else Inr False)"

definition winP :: "gameP \<Rightarrow> (nat \<times> int) list \<Rightarrow> error + bool" where
  "winP g cells = everyE (winCellP g) cells"

definition winHereP :: "gameP \<Rightarrow> nat \<Rightarrow> int \<Rightarrow> error + bool" where
  "winHereP g y x =
     orE (winP g (horiz y x)) (orE (winP g (vert y x))
       (orE (winP g (diagDR y x)) (winP g (diagDL y x))))"

fun checkColsP :: "gameP \<Rightarrow> nat \<Rightarrow> nat list \<Rightarrow> error + bool" where
  "checkColsP g y [] = Inr False"
| "checkColsP g y (x # xs) =
     (case winHereP g y (int x) of
        Inl e \<Rightarrow> Inl e
      | Inr True \<Rightarrow> Inr True
      | Inr False \<Rightarrow> checkColsP g y xs)"

fun checkRowsP :: "gameP \<Rightarrow> nat list \<Rightarrow> error + bool" where
  "checkRowsP g [] = Inr False"
| "checkRowsP g (y # ys) =
     (case checkColsP g y [0..<widthP g] of
        Inl e \<Rightarrow> Inl e
      | Inr True \<Rightarrow> Inr True
      | Inr False \<Rightarrow> checkRowsP g ys)"

definition checkForWinP :: "gameP \<Rightarrow> error + bool" where
  "checkForWinP g = checkRowsP g [0..<heightP g]"

definition boardFullP :: "gameP \<Rightarrow> bool" where
  "boardFullP g = list_all (aevery truthy) (boardP g)"

text \<open>The message of a win is \<open>Player ${this.currPlayer + 1} won!\<close> here.\<close>

definition handleClickP :: "gameP \<Rightarrow> int \<Rightarrow> outcome \<times> gameP" where
  "handleClickP g x =
     (if \<not> gameOverP g then
        (case findSpotForColP g x of
           Inl e \<Rightarrow> (Threw e, g)
         | Inr None \<Rightarrow> (Ignored, g)
         | Inr (Some y) \<Rightarrow>
             (case setCellP g y x (playerNow g) of
                Inl e \<Rightarrow> (Threw e, g)
              | Inr g1 \<Rightarrow>
                  (case placeInTableP g1 y x of
                     Inl e \<Rightarrow> (Threw e, g1)
                   | Inr u \<Rightarrow>
                       (case checkForWinP g1 of
                          Inl e \<Rightarrow> (Threw e, g1)
                        | Inr True \<Rightarrow> (Ended (PlayerWon (currPlayerP g1 + 1)), endGameP g1)
                        | Inr False \<Rightarrow>
                            if boardFullP g1 then (Ended Tie, endGameP g1)
                            else (Moved,
                                  g1\<lparr>currPlayerP := (if currPlayerP g1 = 0 then 1 else 0)\<rparr>)))))
      else (Ignored, g))"

fun playP :: "gameP \<Rightarrow> int list \<Rightarrow> outcome list \<times> gameP" where
  "playP g [] = ([], g)"
| "playP g (x # xs) =
     (case handleClickP g x of (out, g1) \<Rightarrow>
        (case playP g1 xs of (outs, g2) \<Rightarrow> (out # outs, g2)))"

section \<open>Notions used to state the properties\<close>

text \<open>The cell at row \<open>y\<close> and key \<open>x\<close>, read as the programs read it.\<close>

definition cellAt :: "game \<Rightarrow> nat \<Rightarrow> int \<Rightarrow> jsval" where
  "cellAt g y x = aget (board g ! y) x"

definition cellAtP :: "gameP \<Rightarrow> nat \<Rightarrow> int \<Rightarrow> jsval" where
  "cellAtP g y x = aget (boardP g ! y) x"

text \<open>The coordinates of the grid of \<open>h\<close> rows and \<open>w\<close> columns.\<close>

definition inGrid :: "nat \<Rightarrow> nat \<Rightarrow> nat \<Rightarrow> int \<Rightarrow> bool" where
  "inGrid h w y x = (y < h \<and> 0 \<le> x \<and> x < int w)"

text \<open>
  A run in the specification's words: a start cell and one of four directions, the
  four coordinates being the start plus \<open>i\<close> times the direction's step for
  \<open>i = 0, 1, 2, 3\<close>. It wins when all four coordinates are in the grid and all four
  cells hold the active player.
\<close>

fun delta :: "direction \<Rightarrow> nat \<times> int" where
  "delta Horizontal = (0, 1)"
| "delta Vertical = (1, 0)"
| "delta DiagDownRight = (1, 1)"
| "delta DiagDownLeft = (1, - 1)"

definition runCells :: "nat \<Rightarrow> int \<Rightarrow> direction \<Rightarrow> (nat \<times> int) list" where
  "runCells y x d =
     map (\<lambda>i. (y + i * fst (delta d), x + int i * snd (delta d))) [0, 1, 2, 3]"

definition holdsActive :: "game \<Rightarrow> nat \<times> int \<Rightarrow> bool" where
  "holdsActive g c =
     (case c of (y, x) \<Rightarrow>
        inGrid (height g) (width g) y x \<and> cellAt g y x = Num (currPlayer g))"

definition winningRun :: "game \<Rightarrow> nat \<Rightarrow> int \<Rightarrow> direction \<Rightarrow> bool" where
  "winningRun g y x d = list_all (holdsActive g) (runCells y x d)"

text \<open>The scan order of the specification: cells row by row, four directions per cell.\<close>

definition scanOrder :: "game \<Rightarrow> (nat \<times> int \<times> direction) list" where
  "scanOrder g =
     concat (map (\<lambda>y. concat (map (\<lambda>x.
        map (\<lambda>d. (y, int x, d)) [Horizontal, Vertical, DiagDownRight, DiagDownLeft])
        [0..<width g])) [0..<height g])"

definition firstWinningRun :: "game \<Rightarrow> (nat \<times> int \<times> direction) option" where
  "firstWinningRun g = find (\<lambda>(y, x, d). winningRun g y x d) (scanOrder g)"

text \<open>A list up to and including its first element that satisfies \<open>P\<close>.\<close>

fun uptoFirst :: "('a \<Rightarrow> bool) \<Rightarrow> 'a list \<Rightarrow> 'a list" where
  "uptoFirst P [] = []"
| "uptoFirst P (x # xs) = (if P x then [x] else x # uptoFirst P xs)"

text \<open>The winning runs as triples, and the four runs that start at one cell, in order.\<close>

definition wins :: "game \<Rightarrow> nat \<times> int \<times> direction \<Rightarrow> bool" where
  "wins g r = (case r of (y, x, d) \<Rightarrow> winningRun g y x d)"

definition runsAt :: "nat \<Rightarrow> nat \<Rightarrow> (nat \<times> int \<times> direction) list" where
  "runsAt y x = map (\<lambda>d. (y, int x, d)) [Horizontal, Vertical, DiagDownRight, DiagDownLeft]"

text \<open>The board reflected left to right: the cell \<open>(y, x)\<close> goes to \<open>(y, W - 1 - x)\<close>.\<close>

definition mirrorRow :: "nat \<Rightarrow> jsarray \<Rightarrow> jsarray" where
  "mirrorRow w r = r\<lparr>props := (\<lambda>k. props r (int w - 1 - k))\<rparr>"

definition mirror :: "game \<Rightarrow> game" where
  "mirror g = g\<lparr>board := map (mirrorRow (width g)) (board g)\<rparr>"

text \<open>Every cell of the grid is occupied (the tie condition in the specification's words).\<close>

definition allOccupied :: "game \<Rightarrow> bool" where
  "allOccupied g =
     (\<forall>y x. inGrid (height g) (width g) y x \<longrightarrow> truthy (cellAt g y x))"

text \<open>
  The invariant of the grid: the board has \<open>height\<close> rows, a cell of the grid is empty or
  holds one of the two players, and the active player is one of the two.
\<close>

definition playerCell :: "jsval \<Rightarrow> bool" where
  "playerCell v = (v = Undefined \<or> v = Num 1 \<or> v = Num 2)"

definition gridInv :: "game \<Rightarrow> bool" where
  "gridInv g =
     (length (board g) = height g \<and>
      (\<forall>y x. inGrid (height g) (width g) y x \<longrightarrow> playerCell (cellAt g y x)) \<and>
      (currPlayer g = 1 \<or> currPlayer g = 2))"

definition playerCellP :: "gameP \<Rightarrow> jsval \<Rightarrow> bool" where
  "playerCellP g v = (v = Undefined \<or> v = Obj (players g ! 0) \<or> v = Obj (players g ! 1))"

definition gridInvP :: "gameP \<Rightarrow> bool" where
  "gridInvP g =
     (length (boardP g) = heightP g \<and> 2 \<le> length (players g) \<and>
      (\<forall>y x. inGrid (heightP g) (widthP g) y x \<longrightarrow> playerCellP g (cellAtP g y x)) \<and>
      (currPlayerP g = 0 \<or> currPlayerP g = 1))"

text \<open>
  The rows as \<open>makeBoard\<close> makes them and as the clicks leave them: at least \<open>width\<close>
  long, every key of the grid present, and whatever was written at a key outside the
  grid is truthy.
\<close>

definition rowOK :: "nat \<Rightarrow> jsarray \<Rightarrow> bool" where
  "rowOK w r =
     (w \<le> len r \<and>
      (\<forall>k. 0 \<le> k \<and> k < int w \<longrightarrow> props r k \<noteq> None) \<and>
      (\<forall>k v. \<not> (0 \<le> k \<and> k < int w) \<and> props r k = Some v \<longrightarrow> truthy v))"

definition wellFormed :: "game \<Rightarrow> bool" where
  "wellFormed g =
     (length (board g) = height g \<and> (\<forall>r \<in> set (board g). rowOK (width g) r) \<and>
      (currPlayer g = 1 \<or> currPlayer g = 2))"

text \<open>
  Corresponding states of the two variants: player 1 is \<open>players[0]\<close>, player 2 is
  \<open>players[1]\<close>, and the boards hold corresponding values at the same keys.
\<close>

definition convCell :: "nat \<Rightarrow> nat \<Rightarrow> jsval \<Rightarrow> jsval" where
  "convCell p0 p1 v = (if v = Num 1 then Obj p0 else if v = Num 2 then Obj p1 else Undefined)"

definition corrRow :: "nat \<Rightarrow> nat \<Rightarrow> jsarray \<Rightarrow> jsarray \<Rightarrow> bool" where
  "corrRow p0 p1 ra rb =
     (len rb = len ra \<and>
      (\<forall>k. (case props ra k of None \<Rightarrow> props rb k = None
                | Some v \<Rightarrow> playerCell v \<and> props rb k = Some (convCell p0 p1 v))))"

definition corr :: "game \<Rightarrow> gameP \<Rightarrow> bool" where
  "corr a b =
     (heightP b = height a \<and> widthP b = width a \<and> gameOverP b = gameOver a \<and>
      length (players b) = 2 \<and> players b ! 0 \<noteq> players b ! 1 \<and>
      (currPlayer a = 1 \<and> currPlayerP b = 0 \<or> currPlayer a = 2 \<and> currPlayerP b = 1) \<and>
      list_all2 (corrRow (players b ! 0) (players b ! 1)) (board a) (boardP b))"

text \<open>
  The win check read without exceptions: a win starts at \<open>(y, x)\<close> when one of the four
  cell lists of the source holds the active player throughout.
\<close>

definition winAt :: "game \<Rightarrow> nat \<Rightarrow> int \<Rightarrow> bool" where
  "winAt g y x =
     (list_all (holdsActive g) (horiz y x) \<or> list_all (holdsActive g) (vert y x) \<or>
      list_all (holdsActive g) (diagDR y x) \<or> list_all (holdsActive g) (diagDL y x))"

definition anyWin :: "game \<Rightarrow> bool" where
  "anyWin g = (\<exists>y < height g. \<exists>x < width g. winAt g y (int x))"

text \<open>The states right after the first click on the start button.\<close>

definition emptyRow :: "nat \<Rightarrow> jsarray" where
  "emptyRow w = \<lparr>props = (\<lambda>k. if 0 \<le> k \<and> k < int w then Some Undefined else None), len = w\<rparr>"

definition emptyGame :: "nat \<Rightarrow> nat \<Rightarrow> game" where
  "emptyGame h w =
     \<lparr>height = h, width = w, currPlayer = 1, board = replicate h (emptyRow w),
      gameOver = False\<rparr>"

definition emptyGameP :: "nat \<Rightarrow> nat \<Rightarrow> string \<Rightarrow> string \<Rightarrow> gameP" where
  "emptyGameP h w c1 c2 =
     \<lparr>heightP = h, widthP = w, players = [0, 1], currPlayerP = 0,
      boardP = replicate h (emptyRow w), gameOverP = False, heap = [c1, c2]\<rparr>"

text \<open>
  States used as examples. The specification's scenario on the board of 6 rows and 7
  columns: player 1 drops into column 0 and player 2 into column 1, until player 1 has
  four in column 0.
\<close>

definition wonGame :: game where
  "wonGame = snd (play (emptyGame 6 7) [0, 1, 0, 1, 0, 1, 0])"

definition wonGameP :: gameP where
  "wonGameP = snd (playP (emptyGameP 6 7 ''red'' ''blue'') [0, 1, 0, 1, 0, 1, 0])"

text \<open>Six clicks on column 0 fill it, the players alternating.\<close>

definition fullColumnGame :: game where
  "fullColumnGame = snd (play (emptyGame 6 7) [0, 0, 0, 0, 0, 0])"

text \<open>
  One row of seven cells: after these six clicks only cell 3 is empty and player 1 is to
  move, so the next piece both completes a run of four and fills the board.
\<close>

definition lastMoveGame :: game where
  "lastMoveGame = snd (play (emptyGame 1 7) [0, 4, 1, 5, 2, 6])"

text \<open>A board of two rows and two columns with one empty cell left; no run of four fits.\<close>

definition nearlyTiedGame :: game where
  "nearlyTiedGame = snd (play (emptyGame 2 2) [0, 0, 1])"

section \<open>Lemmas about the first variant\<close>

subsection \<open>Arrays\<close>

lemma orE_Inr: "orE (Inr a) (Inr b) = Inr (a \<or> b)"
  by (cases a) (simp_all add: orE_def)

lemma aget_aset: "aget (aset a k v) k' = (if k' = k then v else aget a k')"
  by (simp add: aget_def aset_def)

lemma props_aset: "props (aset a k v) k' = (if k' = k then Some v else props a k')"
  by (simp add: aset_def)

lemma len_aset: "len a \<le> len (aset a k v)"
  by (simp add: aset_def)

lemma aevery_iff:
  "aevery p a = (\<forall>i<len a. case props a (int i) of None \<Rightarrow> True | Some v \<Rightarrow> p v)"
  by (auto simp add: aevery_def list_all_iff)

subsection \<open>Reading and writing cells\<close>

lemma getCell_ok: "y < length (board g) \<Longrightarrow> getCell g y x = Inr (cellAt g y x)"
  by (simp add: getCell_def cellAt_def)

lemma getCell_Inr: "getCell g y x = Inr v \<Longrightarrow> y < length (board g) \<and> v = cellAt g y x"
  by (auto simp add: getCell_def cellAt_def split: if_splits)

lemma setCell_ok:
  "y < length (board g) \<Longrightarrow>
   setCell g y x v = Inr (g\<lparr>board := (board g)[y := aset (board g ! y) x v]\<rparr>)"
  by (simp add: setCell_def)

lemma setCell_fields:
  assumes "setCell g y x v = Inr g1"
  shows "height g1 = height g" and "width g1 = width g" and "currPlayer g1 = currPlayer g"
    and "gameOver g1 = gameOver g" and "length (board g1) = length (board g)"
    and "y < length (board g)"
  using assms by (auto simp add: setCell_def split: if_splits)

lemma setCell_cellAt:
  assumes "setCell g y x v = Inr g1"
  shows "cellAt g1 y' x' = (if y' = y \<and> x' = x then v else cellAt g y' x')"
  using assms by (auto simp add: setCell_def cellAt_def aget_aset nth_list_update split: if_splits)

subsection \<open>The scan for the landing row\<close>

lemma findSpotLoop_None:
  "n \<le> length (board g) \<Longrightarrow>
   (findSpotLoop g x n = Inr None) = (\<forall>y<n. truthy (cellAt g y x))"
  by (induction n) (auto simp add: getCell_ok less_Suc_eq)

lemma findSpotLoop_Some:
  "findSpotLoop g x n = Inr (Some y) \<Longrightarrow>
   y < n \<and> y < length (board g) \<and> \<not> truthy (cellAt g y x) \<and>
   (\<forall>y'. y < y' \<and> y' < n \<longrightarrow> truthy (cellAt g y' x))"
proof (induction n)
  case 0
  then show ?case by simp
next
  case (Suc n)
  show ?case
  proof (cases "getCell g n x")
    case (Inl e)
    with Suc.prems show ?thesis by simp
  next
    case (Inr c)
    then have c: "n < length (board g)" "c = cellAt g n x"
      using getCell_Inr by blast+
    show ?thesis
    proof (cases "truthy c")
      case True
      with Suc.prems Inr have "findSpotLoop g x n = Inr (Some y)" by simp
      from Suc.IH [OF this] True c show ?thesis
        by (auto simp add: less_Suc_eq)
    next
      case False
      with Suc.prems Inr have "y = n" by simp
      with False c show ?thesis by auto
    qed
  qed
qed

lemma findSpotLoop_total:
  "n \<le> length (board g) \<Longrightarrow> \<exists>r. findSpotLoop g x n = Inr r"
  by (induction n) (auto simp add: getCell_ok)

lemma findSpotLoop_found:
  assumes "n \<le> length (board g)" and "y < n" and "\<not> truthy (cellAt g y x)"
  shows "\<exists>y'. findSpotLoop g x n = Inr (Some y')"
proof -
  obtain r where r: "findSpotLoop g x n = Inr r"
    using findSpotLoop_total [OF assms(1)] by blast
  have "r \<noteq> None"
    using findSpotLoop_None [OF assms(1), of x] r assms(2,3) by auto
  with r show ?thesis by auto
qed

subsection \<open>The win check without exceptions\<close>

lemma winCell_ok:
  "height g \<le> length (board g) \<Longrightarrow> winCell g c = Inr (holdsActive g c)"
  by (cases c) (auto simp add: winCell_def holdsActive_def inGrid_def getCell_ok)

lemma win_ok:
  "height g \<le> length (board g) \<Longrightarrow> win g cells = Inr (list_all (holdsActive g) cells)"
  unfolding win_def
  by (induction cells) (simp_all add: winCell_ok split: bool.split)

lemma winHere_ok:
  "height g \<le> length (board g) \<Longrightarrow> winHere g y x = Inr (winAt g y x)"
  by (simp add: winHere_def win_ok orE_Inr winAt_def)

lemma checkCols_ok:
  "height g \<le> length (board g) \<Longrightarrow>
   checkCols g y xs = Inr (\<exists>x \<in> set xs. winAt g y (int x))"
  by (induction xs) (simp_all add: winHere_ok split: bool.split)

lemma checkRows_ok:
  "height g \<le> length (board g) \<Longrightarrow>
   checkRows g ys = Inr (\<exists>y \<in> set ys. \<exists>x < width g. winAt g y (int x))"
  by (induction ys) (auto simp add: checkCols_ok split: bool.split)

lemma checkForWin_ok:
  "height g \<le> length (board g) \<Longrightarrow> checkForWin g = Inr (anyWin g)"
  by (auto simp add: checkForWin_def checkRows_ok anyWin_def)

lemma win_True_inGrid:
  "win g cells = Inr True \<Longrightarrow> (y, x) \<in> set cells \<Longrightarrow> inGrid (height g) (width g) y x"
  unfolding win_def
proof (induction cells)
  case Nil
  then show ?case by simp
next
  case (Cons c cs)
  from Cons.prems(1) have c: "winCell g c = Inr True" and cs: "everyE (winCell g) cs = Inr True"
    by (auto split: sum.splits bool.splits)
  from c have "inGrid (height g) (width g) (fst c) (snd c)"
    by (cases c) (auto simp add: winCell_def inGrid_def split: if_splits)
  with Cons.IH [OF cs] Cons.prems(2) show ?case by auto
qed

subsection \<open>One click\<close>

lemma handleClick_over: "gameOver g \<Longrightarrow> handleClick g x = (Ignored, g)"
  by (simp add: handleClick_def)

lemma handleClick_null:
  "findSpotForCol g x = Inr None \<Longrightarrow> handleClick g x = (Ignored, g)"
  by (simp add: handleClick_def)

lemma handleClick_offGrid:
  assumes "\<not> gameOver g" and "findSpotForCol g x = Inr (Some y)"
    and "setCell g y x (Num (currPlayer g)) = Inr g1"
    and "\<not> (0 \<le> x \<and> x < int (width g))"
  shows "handleClick g x = (Threw TypeError, g1)"
proof -
  have "placeInTable g1 y x = Inl TypeError"
    using assms(4) setCell_fields(2) [OF assms(3)] by (auto simp add: placeInTable_def)
  with assms(1,2,3) show ?thesis by (simp add: handleClick_def)
qed

lemma handleClick_placed:
  assumes "\<not> gameOver g" and "findSpotForCol g x = Inr (Some y)"
    and "setCell g y x (Num (currPlayer g)) = Inr g1"
    and "0 \<le> x" and "x < int (width g)" and "length (board g) = height g"
  shows "handleClick g x =
     (if anyWin g1 then (Ended (PlayerWon (currPlayer g)), endGame g1)
      else if boardFull g1 then (Ended Tie, endGame g1)
      else (Moved, g1\<lparr>currPlayer := (if currPlayer g = 1 then 2 else 1)\<rparr>))"
proof -
  note f = setCell_fields [OF assms(3)]
  have y: "y < height g"
    using findSpotLoop_Some [of g x "height g" y] assms(2) by (simp add: findSpotForCol_def)
  have p: "placeInTable g1 y x = Inr ()"
    using y assms(4,5) f by (simp add: placeInTable_def)
  have w: "checkForWin g1 = Inr (anyWin g1)"
    using f assms(6) by (simp add: checkForWin_ok)
  show ?thesis
    using assms(1,2,3) p w f(3) by (simp add: handleClick_def)
qed

subsection \<open>The first click on the start button\<close>

lemma Array_from_ok: "w \<le> 4294967295 \<Longrightarrow> Array_from w = Inr (emptyRow w)"
  by (simp add: Array_from_def emptyRow_def)

lemma makeBoardLoop_ok:
  "width g \<le> 4294967295 \<Longrightarrow>
   makeBoardLoop n g = Inr (g\<lparr>board := board g @ replicate n (emptyRow (width g))\<rparr>)"
  by (induction n arbitrary: g) (simp_all add: Array_from_ok replicate_app_Cons_same)

lemma startClick_newGame:
  "w \<le> 4294967295 \<Longrightarrow> startClick (newGame h w) = Inr (emptyGame h w)"
  by (simp add: startClick_def newGame_def makeBoard_def makeBoardLoop_ok emptyGame_def)

lemma cellAt_emptyGame:
  "y < h \<Longrightarrow> cellAt (emptyGame h w) y x = Undefined"
  by (simp add: cellAt_def emptyGame_def emptyRow_def aget_def)

section \<open>Where a piece lands\<close>

text \<open>
  Claim C1. In a game that is not over, whose board has \<open>height\<close> rows, a click on a
  column \<open>x\<close> of the grid that still has an empty cell (one the code reads as falsy)
  puts the active player's number into the empty cell of that column with the largest
  row index. No other cell changes, whatever its row and key, the board keeps its rows,
  and the click neither returns early nor raises.
\<close>

theorem handleClick_drops_to_lowest_empty:
  assumes "length (board g) = height g" and "\<not> gameOver g"
    and "0 \<le> x" and "x < int (width g)"
    and "\<exists>y<height g. \<not> truthy (cellAt g y x)"
  shows "\<exists>y. y < height g \<and> \<not> truthy (cellAt g y x) \<and>
             (\<forall>y'. y < y' \<and> y' < height g \<longrightarrow> truthy (cellAt g y' x)) \<and>
             cellAt (snd (handleClick g x)) y x = Num (currPlayer g) \<and>
             (\<forall>y' x'. (y', x') \<noteq> (y, x) \<longrightarrow>
                cellAt (snd (handleClick g x)) y' x' = cellAt g y' x') \<and>
             length (board (snd (handleClick g x))) = height g \<and>
             fst (handleClick g x) \<noteq> Ignored \<and>
             (\<forall>e. fst (handleClick g x) \<noteq> Threw e)"
proof -
  from assms(5) obtain y0 where y0: "y0 < height g" "\<not> truthy (cellAt g y0 x)"
    by blast
  from findSpotLoop_found [of "height g" g y0 x] assms(1) y0
  obtain y where spot: "findSpotForCol g x = Inr (Some y)"
    by (auto simp add: findSpotForCol_def)
  then have low: "y < height g" "\<not> truthy (cellAt g y x)"
    "\<forall>y'. y < y' \<and> y' < height g \<longrightarrow> truthy (cellAt g y' x)"
    using findSpotLoop_Some [of g x "height g" y] by (simp_all add: findSpotForCol_def)
  define g1 where "g1 = g\<lparr>board := (board g)[y := aset (board g ! y) x (Num (currPlayer g))]\<rparr>"
  have put: "setCell g y x (Num (currPlayer g)) = Inr g1"
    using low(1) assms(1) by (simp add: setCell_ok g1_def)
  note step = handleClick_placed [OF assms(2) spot put assms(3,4,1)]
  have b: "board (snd (handleClick g x)) = board g1"
    by (simp add: step endGame_def)
  have c: "cellAt (snd (handleClick g x)) y' x' = cellAt g1 y' x'" for y' x'
    by (simp add: cellAt_def b)
  have "cellAt (snd (handleClick g x)) y x = Num (currPlayer g)"
    by (simp add: c setCell_cellAt [OF put])
  moreover have "\<forall>y' x'. (y', x') \<noteq> (y, x) \<longrightarrow>
      cellAt (snd (handleClick g x)) y' x' = cellAt g y' x'"
    by (auto simp add: c setCell_cellAt [OF put])
  moreover have "length (board (snd (handleClick g x))) = height g"
    using setCell_fields(5) [OF put] assms(1) by (simp add: b)
  moreover have "fst (handleClick g x) \<noteq> Ignored" "\<forall>e. fst (handleClick g x) \<noteq> Threw e"
    by (simp_all add: step)
  ultimately show ?thesis using low by blast
qed

text \<open>
  On the empty board of 6 rows and 7 columns a click on column 3 lands in row 5, the
  bottom row; the cell above it and the cell to its left stay empty.
\<close>

theorem handleClick_drops_to_lowest_empty_witness:
  "length (board (emptyGame 6 7)) = height (emptyGame 6 7) \<and> \<not> gameOver (emptyGame 6 7) \<and>
   (0::int) \<le> 3 \<and> 3 < int (width (emptyGame 6 7)) \<and>
   \<not> truthy (cellAt (emptyGame 6 7) 5 3) \<and>
   cellAt (snd (handleClick (emptyGame 6 7) 3)) 5 3 = Num 1 \<and>
   cellAt (snd (handleClick (emptyGame 6 7) 3)) 4 3 = Undefined \<and>
   cellAt (snd (handleClick (emptyGame 6 7) 3)) 5 2 = Undefined"
proof -
  let ?g = "emptyGame 6 7"
  have h: "length (board ?g) = height ?g" "\<not> gameOver ?g" "(0::int) \<le> 3" "3 < int (width ?g)"
    by (simp_all add: emptyGame_def)
  have e: "\<not> truthy (cellAt ?g 5 3)" "cellAt ?g 4 3 = Undefined" "cellAt ?g 5 2 = Undefined"
    by (simp_all add: cellAt_emptyGame)
  have ex: "\<exists>y<height ?g. \<not> truthy (cellAt ?g y 3)"
    using e(1) by (intro exI [of _ 5]) (simp add: emptyGame_def)
  from handleClick_drops_to_lowest_empty [OF h ex]
  obtain y where y: "y < height ?g"
    "\<forall>y'. y < y' \<and> y' < height ?g \<longrightarrow> truthy (cellAt ?g y' 3)"
    "cellAt (snd (handleClick ?g 3)) y 3 = Num (currPlayer ?g)"
    "\<forall>y' x'. (y', x') \<noteq> (y, 3) \<longrightarrow> cellAt (snd (handleClick ?g 3)) y' x' = cellAt ?g y' x'"
    by blast
  have "y = 5"
  proof (rule ccontr)
    assume "y \<noteq> 5"
    with y(1) have "y < 5" by (simp add: emptyGame_def)
    with y(2) have "truthy (cellAt ?g 5 3)" by (simp add: emptyGame_def)
    with e(1) show False by simp
  qed
  with y(3,4) e h show ?thesis by (simp add: emptyGame_def)
qed

section \<open>Clicks that change nothing\<close>

lemma handleClickP_over: "gameOverP g \<Longrightarrow> handleClickP g x = (Ignored, g)"
  by (simp add: handleClickP_def)

lemma play_over: "gameOver g \<Longrightarrow> play g xs = (replicate (length xs) Ignored, g)"
  by (induction xs) (simp_all add: handleClick_over)

lemma playP_over: "gameOverP g \<Longrightarrow> playP g xs = (replicate (length xs) Ignored, g)"
  by (induction xs) (simp_all add: handleClickP_over)

text \<open>
  Claim C4. Once \<open>gameOver\<close> is set (after a win or a tie), a click on any column, in
  range or not, returns at once: the whole state, and so the board, the active player
  and \<open>gameOver\<close>, is what it was. The same holds after any sequence of clicks, so no
  click brings the game back into play. This is so in both variants.
\<close>

theorem handleClick_after_game_over:
  "(gameOver g \<longrightarrow>
      handleClick g x = (Ignored, g) \<and> play g xs = (replicate (length xs) Ignored, g)) \<and>
   (gameOverP gp \<longrightarrow>
      handleClickP gp x = (Ignored, gp) \<and> playP gp xs = (replicate (length xs) Ignored, gp))"
  by (simp add: handleClick_over handleClickP_over play_over playP_over)

text \<open>The won game of the specification's scenario, in both variants.\<close>

theorem handleClick_after_game_over_witness:
  "gameOver wonGame \<and> handleClick wonGame 3 = (Ignored, wonGame) \<and>
   play wonGame [2, 0] = ([Ignored, Ignored], wonGame) \<and>
   gameOverP wonGameP \<and> handleClickP wonGameP 3 = (Ignored, wonGameP) \<and>
   playP wonGameP [2, 0] = ([Ignored, Ignored], wonGameP)"
proof -
  have a: "gameOver wonGame" by code_simp
  have b: "gameOverP wonGameP" by code_simp
  from a b handleClick_after_game_over [of wonGame 3 "[2, 0]" wonGameP]
  show ?thesis by simp
qed

text \<open>
  Claim C5. When every cell of a column \<open>x\<close> of the grid is occupied (truthy),
  \<open>findSpotForCol\<close> returns \<open>null\<close> and the click returns at once without raising:
  the whole state is unchanged.
\<close>

theorem handleClick_full_column:
  assumes "length (board g) = height g" and "0 \<le> x" and "x < int (width g)"
    and "\<forall>y<height g. truthy (cellAt g y x)"
  shows "findSpotForCol g x = Inr None \<and> handleClick g x = (Ignored, g)"
proof -
  have n: "findSpotForCol g x = Inr None"
    using findSpotLoop_None [of "height g" g x] assms(1,4) by (simp add: findSpotForCol_def)
  show ?thesis
  proof (cases "gameOver g")
    case True
    with n show ?thesis by (simp add: handleClick_over)
  next
    case False
    with n show ?thesis by (simp add: handleClick_null)
  qed
qed

text \<open>After six clicks on column 0 of the empty 6 by 7 board, a seventh is ignored.\<close>

theorem handleClick_full_column_witness:
  "length (board fullColumnGame) = height fullColumnGame \<and>
   (0::int) \<le> 0 \<and> 0 < int (width fullColumnGame) \<and>
   list_all (\<lambda>y. truthy (cellAt fullColumnGame y 0)) [0..<height fullColumnGame] \<and>
   \<not> gameOver fullColumnGame \<and>
   findSpotForCol fullColumnGame 0 = Inr None \<and>
   handleClick fullColumnGame 0 = (Ignored, fullColumnGame)"
proof -
  have h: "length (board fullColumnGame) = height fullColumnGame"
    "0 < int (width fullColumnGame)" "\<not> gameOver fullColumnGame"
    by code_simp+
  have c: "list_all (\<lambda>y. truthy (cellAt fullColumnGame y 0)) [0..<height fullColumnGame]"
    by code_simp
  then have "\<forall>y<height fullColumnGame. truthy (cellAt fullColumnGame y 0)"
    by (simp add: list_all_iff)
  from handleClick_full_column [OF h(1) _ h(2) this] h c
  show ?thesis by simp
qed

section \<open>Win detection\<close>

lemma winningRun_Horizontal: "winningRun g y x Horizontal = list_all (holdsActive g) (horiz y x)"
  by (simp add: winningRun_def runCells_def horiz_def)

lemma winningRun_Vertical: "winningRun g y x Vertical = list_all (holdsActive g) (vert y x)"
  by (simp add: winningRun_def runCells_def vert_def)

lemma winningRun_DiagDownRight:
  "winningRun g y x DiagDownRight = list_all (holdsActive g) (diagDR y x)"
  by (simp add: winningRun_def runCells_def diagDR_def)

lemma winningRun_DiagDownLeft:
  "winningRun g y x DiagDownLeft = list_all (holdsActive g) (diagDL y x)"
  by (simp add: winningRun_def runCells_def diagDL_def)

lemmas winningRun_cases =
  winningRun_Horizontal winningRun_Vertical winningRun_DiagDownRight winningRun_DiagDownLeft

lemma winAt_iff: "winAt g y x = (\<exists>d. winningRun g y x d)"
proof
  assume "winAt g y x"
  then show "\<exists>d. winningRun g y x d"
    unfolding winAt_def using winningRun_cases by blast
next
  assume "\<exists>d. winningRun g y x d"
  then obtain d where "winningRun g y x d" ..
  then show "winAt g y x"
    by (cases d) (simp_all add: winAt_def winningRun_cases)
qed

lemma winningRun_start:
  "winningRun g y x d \<Longrightarrow> inGrid (height g) (width g) y x"
  by (simp add: winningRun_def runCells_def holdsActive_def)

lemma anyWin_iff: "anyWin g = (\<exists>y x d. winningRun g y x d)"
proof
  assume "anyWin g"
  then show "\<exists>y x d. winningRun g y x d"
    by (auto simp add: anyWin_def winAt_iff)
next
  assume "\<exists>y x d. winningRun g y x d"
  then obtain y x d where r: "winningRun g y x d" by blast
  from winningRun_start [OF r] have "y < height g" "nat x < width g" "int (nat x) = x"
    by (auto simp add: inGrid_def)
  with r show "anyWin g"
    unfolding anyWin_def winAt_iff by metis
qed

lemma set_scanOrder:
  "set (scanOrder g) = {(y, int x, d) | y x d. y < height g \<and> x < width g}"
proof -
  have d: "d \<in> {Horizontal, Vertical, DiagDownRight, DiagDownLeft}" for d
    by (cases d) simp_all
  show ?thesis
    unfolding scanOrder_def using d by fastforce
qed

lemma firstWinningRun_iff: "(firstWinningRun g \<noteq> None) = anyWin g"
proof -
  have "(firstWinningRun g \<noteq> None) =
        (\<exists>y<height g. \<exists>x<width g. \<exists>d. winningRun g y (int x) d)"
    by (auto simp add: firstWinningRun_def find_None_iff set_scanOrder)
  then show ?thesis by (auto simp add: anyWin_def winAt_iff)
qed

lemma checkForWin_runs:
  "length (board g) = height g \<Longrightarrow> checkForWin g = Inr (\<exists>y x d. winningRun g y x d)"
  by (simp add: checkForWin_ok anyWin_iff)

subsection \<open>The order of the scan\<close>

lemma fst_winHereLog:
  "fst (winHereLog g y x [Horizontal, Vertical, DiagDownRight, DiagDownLeft]) = winHere g y x"
  by (simp add: winHere_def orE_def cellsOf_def split: sum.splits bool.splits)

lemma fst_checkColsLog: "fst (checkColsLog g y xs) = checkCols g y xs"
proof (induction xs)
  case Nil
  show ?case by simp
next
  case (Cons x xs)
  let ?dirs = "[Horizontal, Vertical, DiagDownRight, DiagDownLeft]"
  obtain r l where w: "winHereLog g y (int x) ?dirs = (r, l)"
    by (cases "winHereLog g y (int x) ?dirs")
  obtain r' l' where c: "checkColsLog g y xs = (r', l')"
    by (cases "checkColsLog g y xs")
  from w have r: "winHere g y (int x) = r"
    using fst_winHereLog [of g y "int x"] by simp
  from c Cons have r': "checkCols g y xs = r'"
    by simp
  have "checkColsLog g y (x # xs) =
      (case (r, l) of (Inl e, l) \<Rightarrow> (Inl e, l) | (Inr True, l) \<Rightarrow> (Inr True, l)
       | (Inr False, l) \<Rightarrow> (r', l @ l'))"
    by (simp only: checkColsLog.simps w c prod.case)
  then show ?case
    by (simp add: r r' del: winHereLog.simps split: sum.splits bool.splits)
qed

lemma fst_checkRowsLog: "fst (checkRowsLog g ys) = checkRows g ys"
proof (induction ys)
  case Nil
  show ?case by simp
next
  case (Cons y ys)
  obtain r l where w: "checkColsLog g y [0..<width g] = (r, l)"
    by (cases "checkColsLog g y [0..<width g]")
  obtain r' l' where c: "checkRowsLog g ys = (r', l')"
    by (cases "checkRowsLog g ys")
  from w have r: "checkCols g y [0..<width g] = r"
    using fst_checkColsLog [of g y "[0..<width g]"] by simp
  from c Cons have r': "checkRows g ys = r'"
    by simp
  have "checkRowsLog g (y # ys) =
      (case (r, l) of (Inl e, l) \<Rightarrow> (Inl e, l) | (Inr True, l) \<Rightarrow> (Inr True, l)
       | (Inr False, l) \<Rightarrow> (r', l @ l'))"
    by (simp only: checkRowsLog.simps w c prod.case)
  then show ?case
    by (simp add: r r' split: sum.splits bool.splits)
qed

lemma fst_checkForWinLog: "fst (checkForWinLog g) = checkForWin g"
  by (simp add: checkForWinLog_def checkForWin_def fst_checkRowsLog)

lemma uptoFirst_append:
  "uptoFirst P (xs @ ys) = (if \<exists>x\<in>set xs. P x then uptoFirst P xs else xs @ uptoFirst P ys)"
  by (induction xs) auto

lemma uptoFirst_none: "\<not> (\<exists>x\<in>set xs. P x) \<Longrightarrow> uptoFirst P xs = xs"
  by (induction xs) auto

lemma win_cellsOf:
  "height g \<le> length (board g) \<Longrightarrow> win g (cellsOf d y x) = Inr (winningRun g y x d)"
  by (cases d) (simp_all add: win_ok cellsOf_def winningRun_cases)

lemma winHereLog_ok:
  "height g \<le> length (board g) \<Longrightarrow>
   winHereLog g y x ds =
     (Inr (\<exists>d\<in>set ds. winningRun g y x d), uptoFirst (wins g) (map (\<lambda>d. (y, x, d)) ds))"
  by (induction ds) (simp_all add: win_cellsOf wins_def split: bool.splits)

lemma winsAt: "(\<exists>r\<in>set (runsAt y x). wins g r) = (\<exists>d. winningRun g y (int x) d)"
proof -
  have d: "d \<in> {Horizontal, Vertical, DiagDownRight, DiagDownLeft}" for d
    by (cases d) simp_all
  show ?thesis
    unfolding runsAt_def wins_def using d by fastforce
qed

lemma bex_upt: "(\<exists>x\<in>set [0..<n]. Q x) = (\<exists>x<n. Q x)"
  by auto

lemma uptoFirst_append_if:
  "uptoFirst P (xs @ ys) =
     (if \<exists>x\<in>set xs. P x then uptoFirst P xs else uptoFirst P xs @ uptoFirst P ys)"
  by (simp add: uptoFirst_append uptoFirst_none)

lemma checkColsLog_ok:
  assumes "height g \<le> length (board g)"
  shows "checkColsLog g y xs =
     (Inr (\<exists>x\<in>set xs. \<exists>d. winningRun g y (int x) d),
      uptoFirst (wins g) (concat (map (runsAt y) xs)))"
proof (induction xs)
  case Nil
  show ?case by simp
next
  case (Cons x xs)
  define B where "B = (\<exists>d. winningRun g y (int x) d)"
  define C where "C = (\<exists>x\<in>set xs. \<exists>d. winningRun g y (int x) d)"
  define L0 where "L0 = uptoFirst (wins g) (runsAt y x)"
  define L1 where "L1 = uptoFirst (wins g) (concat (map (runsAt y) xs))"
  have w: "winHereLog g y (int x) [Horizontal, Vertical, DiagDownRight, DiagDownLeft] =
      (Inr B, L0)"
  proof -
    have d: "d \<in> set [Horizontal, Vertical, DiagDownRight, DiagDownLeft]" for d
      by (cases d) simp_all
    then have "(\<exists>d\<in>set [Horizontal, Vertical, DiagDownRight, DiagDownLeft].
        winningRun g y (int x) d) = B"
      unfolding B_def by blast
    then show ?thesis
      by (simp only: winHereLog_ok [OF assms] runsAt_def L0_def)
  qed
  have ih: "checkColsLog g y xs = (Inr C, L1)"
    by (simp only: Cons C_def L1_def)
  have "checkColsLog g y (x # xs) =
      (case (Inr B, L0) of (Inl e, l) \<Rightarrow> (Inl e, l) | (Inr True, l) \<Rightarrow> (Inr True, l)
       | (Inr False, l) \<Rightarrow> (case (Inr C, L1) of (r, l') \<Rightarrow> (r, l @ l')))"
    by (simp only: checkColsLog.simps w ih)
  then have step: "checkColsLog g y (x # xs) = (if B then (Inr True, L0) else (Inr C, L0 @ L1))"
    by (cases B) simp_all
  have "(\<exists>r\<in>set (runsAt y x). wins g r) = B"
    by (simp only: winsAt B_def)
  then have l: "uptoFirst (wins g) (concat (map (runsAt y) (x # xs))) =
      (if B then L0 else L0 @ L1)"
    by (simp add: uptoFirst_append_if L0_def L1_def)
  have "(\<exists>x'\<in>set (x # xs). \<exists>d. winningRun g y (int x') d) = (B \<or> C)"
    by (simp add: B_def C_def)
  then show ?case
    by (simp only: step l) (cases B; simp)
qed

lemma scanOrder_runsAt:
  "scanOrder g = concat (map (\<lambda>y. concat (map (runsAt y) [0..<width g])) [0..<height g])"
  unfolding scanOrder_def runsAt_def [abs_def] by simp

lemma checkRowsLog_ok:
  assumes "height g \<le> length (board g)"
  shows "checkRowsLog g ys =
     (Inr (\<exists>y\<in>set ys. \<exists>x<width g. \<exists>d. winningRun g y (int x) d),
      uptoFirst (wins g) (concat (map (\<lambda>y. concat (map (runsAt y) [0..<width g])) ys)))"
proof (induction ys)
  case Nil
  show ?case by simp
next
  case (Cons y ys)
  let ?row = "\<lambda>y. concat (map (runsAt y) [0..<width g])"
  define B where "B = (\<exists>x<width g. \<exists>d. winningRun g y (int x) d)"
  define C where "C = (\<exists>y\<in>set ys. \<exists>x<width g. \<exists>d. winningRun g y (int x) d)"
  define L0 where "L0 = uptoFirst (wins g) (?row y)"
  define L1 where "L1 = uptoFirst (wins g) (concat (map ?row ys))"
  have c: "checkColsLog g y [0..<width g] = (Inr B, L0)"
    by (simp only: checkColsLog_ok [OF assms] bex_upt B_def L0_def)
  have ih: "checkRowsLog g ys = (Inr C, L1)"
    by (simp only: Cons C_def L1_def)
  have "checkRowsLog g (y # ys) =
      (case (Inr B, L0) of (Inl e, l) \<Rightarrow> (Inl e, l) | (Inr True, l) \<Rightarrow> (Inr True, l)
       | (Inr False, l) \<Rightarrow> (case (Inr C, L1) of (r, l') \<Rightarrow> (r, l @ l')))"
    by (simp only: checkRowsLog.simps c ih)
  then have step: "checkRowsLog g (y # ys) = (if B then (Inr True, L0) else (Inr C, L0 @ L1))"
    by (cases B) simp_all
  have "(\<exists>r\<in>set (?row y). wins g r) = B"
    unfolding B_def using winsAt [of y _ g] by auto
  then have l: "uptoFirst (wins g) (concat (map ?row (y # ys))) = (if B then L0 else L0 @ L1)"
    by (simp add: uptoFirst_append_if L0_def L1_def)
  have "(\<exists>y'\<in>set (y # ys). \<exists>x<width g. \<exists>d. winningRun g y' (int x) d) = (B \<or> C)"
    by (simp add: B_def C_def)
  then show ?case
    by (simp only: step l) (cases B; simp)
qed

lemma checkForWinLog_ok:
  assumes "length (board g) = height g"
  shows "checkForWinLog g = (checkForWin g, uptoFirst (wins g) (scanOrder g))"
proof -
  have h: "height g \<le> length (board g)"
    using assms by simp
  have "checkForWinLog g =
      (Inr (\<exists>y<height g. \<exists>x<width g. \<exists>d. winningRun g y (int x) d),
       uptoFirst (wins g) (scanOrder g))"
    by (simp only: checkForWinLog_def checkRowsLog_ok [OF h] scanOrder_runsAt bex_upt)
  moreover have "checkForWin g = Inr (\<exists>y<height g. \<exists>x<width g. \<exists>d. winningRun g y (int x) d)"
    by (simp only: checkForWin_ok [OF h] anyWin_def winAt_iff)
  ultimately show ?thesis by simp
qed

text \<open>
  Claim C2. On a board of \<open>height\<close> rows \<open>checkForWin\<close> raises nothing and reports a win
  exactly when there are a cell and one of the four directions such that the four
  coordinates of the run lie in the grid and the four cells hold the active player.
  The scan visits the cells row by row and, per cell, the directions in the order
  horizontal, vertical, diagonal down-right, diagonal down-left, and returns at the first
  winning run: the result is that of searching the scan order for a first winning run,
  and the calls of \<open>_win\<close> that \<open>checkForWin\<close> makes are exactly the scan order up to and
  including that run (the whole scan order when no run wins).
\<close>

theorem checkForWin_iff_winning_run:
  assumes "length (board g) = height g"
  shows "checkForWin g = Inr (\<exists>y x d. winningRun g y x d) \<and>
         checkForWin g = Inr (firstWinningRun g \<noteq> None) \<and>
         checkForWinLog g = (checkForWin g, uptoFirst (wins g) (scanOrder g))"
proof -
  have a: "checkForWin g = Inr (anyWin g)"
    using assms by (simp add: checkForWin_ok)
  have "checkForWin g = Inr (\<exists>y x d. winningRun g y x d)"
    by (simp only: a anyWin_iff)
  moreover have "checkForWin g = Inr (firstWinningRun g \<noteq> None)"
    by (simp only: a firstWinningRun_iff)
  moreover note checkForWinLog_ok [OF assms]
  ultimately show ?thesis by (intro conjI)
qed

text \<open>
  In the won game of the scenario the run down from \<open>(2, 0)\<close> wins. It is the first in
  scan order, and the 58th and last call of \<open>_win\<close>: after the 56 runs of the rows 0 and
  1 and the horizontal run at \<open>(2, 0)\<close>. On the empty board no run wins.
\<close>

theorem checkForWin_iff_winning_run_witness:
  "length (board wonGame) = height wonGame \<and> winningRun wonGame 2 0 Vertical \<and>
   checkForWin wonGame = Inr True \<and> firstWinningRun wonGame = Some (2, 0, Vertical) \<and>
   length (snd (checkForWinLog wonGame)) = 58 \<and>
   last (snd (checkForWinLog wonGame)) = (2, 0, Vertical) \<and>
   length (board (emptyGame 6 7)) = height (emptyGame 6 7) \<and>
   firstWinningRun (emptyGame 6 7) = None \<and> checkForWin (emptyGame 6 7) = Inr False"
proof -
  have h: "length (board wonGame) = height wonGame"
    "length (board (emptyGame 6 7)) = height (emptyGame 6 7)"
    by code_simp+
  have r: "winningRun wonGame 2 0 Vertical"
    by code_simp
  have f: "firstWinningRun wonGame = Some (2, 0, Vertical)"
    by code_simp
  have u: "length (uptoFirst (wins wonGame) (scanOrder wonGame)) = 58"
    "last (uptoFirst (wins wonGame) (scanOrder wonGame)) = (2, 0, Vertical)"
    by code_simp+
  have n: "firstWinningRun (emptyGame 6 7) = None"
    by code_simp
  note t = checkForWin_iff_winning_run [OF h(1)]
  from r have "\<exists>y x d. winningRun wonGame y x d" by blast
  with t [THEN conjunct1] have "checkForWin wonGame = Inr True"
    by simp
  moreover from t [THEN conjunct2, THEN conjunct2]
  have "snd (checkForWinLog wonGame) = uptoFirst (wins wonGame) (scanOrder wonGame)"
    by simp
  moreover from checkForWin_iff_winning_run [OF h(2), THEN conjunct2, THEN conjunct1] n
  have "checkForWin (emptyGame 6 7) = Inr False"
    by simp
  ultimately show ?thesis using h r f u n by simp
qed

subsection \<open>Reflection\<close>

lemma mirror_fields:
  "height (mirror g) = height g" "width (mirror g) = width g"
  "currPlayer (mirror g) = currPlayer g" "length (board (mirror g)) = length (board g)"
  by (simp_all add: mirror_def)

lemma cellAt_mirror:
  "y < length (board g) \<Longrightarrow> cellAt (mirror g) y x = cellAt g y (int (width g) - 1 - x)"
  by (simp add: cellAt_def mirror_def mirrorRow_def aget_def)

lemma holdsActive_mirror:
  "length (board g) = height g \<Longrightarrow>
   holdsActive (mirror g) (y, x) = holdsActive g (y, int (width g) - 1 - x)"
  by (auto simp add: holdsActive_def inGrid_def mirror_fields cellAt_mirror)

lemma holdsActive_mirror':
  "length (board g) = height g \<Longrightarrow>
   holdsActive g (y, x) = holdsActive (mirror g) (y, int (width g) - 1 - x)"
  by (simp add: holdsActive_mirror)

lemma winningRun_of_mirror:
  assumes "length (board g) = height g" and "winningRun (mirror g) y x d"
  shows "\<exists>x' d'. winningRun g y x' d'"
proof (cases d)
  case Horizontal
  with assms have "winningRun g y (int (width g) - 1 - x - 3) Horizontal"
    by (simp add: winningRun_def runCells_def holdsActive_mirror algebra_simps)
  then show ?thesis by blast
next
  case Vertical
  with assms have "winningRun g y (int (width g) - 1 - x) Vertical"
    by (simp add: winningRun_def runCells_def holdsActive_mirror algebra_simps)
  then show ?thesis by blast
next
  case DiagDownRight
  with assms have "winningRun g y (int (width g) - 1 - x) DiagDownLeft"
    by (simp add: winningRun_def runCells_def holdsActive_mirror algebra_simps)
  then show ?thesis by blast
next
  case DiagDownLeft
  with assms have "winningRun g y (int (width g) - 1 - x) DiagDownRight"
    by (simp add: winningRun_def runCells_def holdsActive_mirror algebra_simps)
  then show ?thesis by blast
qed

lemma winningRun_to_mirror:
  assumes "length (board g) = height g" and "winningRun g y x d"
  shows "\<exists>x' d'. winningRun (mirror g) y x' d'"
proof (cases d)
  case Horizontal
  with assms have "winningRun (mirror g) y (int (width g) - 1 - x - 3) Horizontal"
    by (simp add: winningRun_def runCells_def holdsActive_mirror algebra_simps)
  then show ?thesis by blast
next
  case Vertical
  with assms have "winningRun (mirror g) y (int (width g) - 1 - x) Vertical"
    by (simp add: winningRun_def runCells_def holdsActive_mirror algebra_simps)
  then show ?thesis by blast
next
  case DiagDownRight
  with assms have "winningRun (mirror g) y (int (width g) - 1 - x) DiagDownLeft"
    by (simp add: winningRun_def runCells_def holdsActive_mirror algebra_simps)
  then show ?thesis by blast
next
  case DiagDownLeft
  with assms have "winningRun (mirror g) y (int (width g) - 1 - x) DiagDownRight"
    by (simp add: winningRun_def runCells_def holdsActive_mirror algebra_simps)
  then show ?thesis by blast
qed

text \<open>
  Claim C9. On a board of \<open>height\<close> rows the win check gives the same answer on the
  board reflected left to right. And \<open>_win\<close> never answers true for a list of cells one
  of whose coordinates is outside the grid.
\<close>

theorem checkForWin_mirror:
  assumes "length (board g) = height g"
  shows "checkForWin (mirror g) = checkForWin g \<and>
         (\<forall>cells y x. (y, x) \<in> set cells \<and> \<not> inGrid (height g) (width g) y x \<longrightarrow>
            win g cells \<noteq> Inr True)"
proof -
  have "(\<exists>y x d. winningRun (mirror g) y x d) = (\<exists>y x d. winningRun g y x d)"
    using winningRun_of_mirror [OF assms] winningRun_to_mirror [OF assms] by blast
  moreover have "length (board (mirror g)) = height (mirror g)"
    using assms by (simp add: mirror_fields)
  ultimately have "checkForWin (mirror g) = checkForWin g"
    using assms by (simp add: checkForWin_runs)
  moreover have "\<forall>cells y x. (y, x) \<in> set cells \<and> \<not> inGrid (height g) (width g) y x \<longrightarrow>
            win g cells \<noteq> Inr True"
    using win_True_inGrid by blast
  ultimately show ?thesis by blast
qed

text \<open>
  The won game reflected: the four pieces stand in column 6 and the check still reports
  the win. The horizontal list starting at \<open>(5, 4)\<close> leaves the grid at column 7.
\<close>

theorem checkForWin_mirror_witness:
  "length (board wonGame) = height wonGame \<and> checkForWin wonGame = Inr True \<and>
   cellAt (mirror wonGame) 2 6 = Num 1 \<and> checkForWin (mirror wonGame) = Inr True \<and>
   \<not> inGrid (height wonGame) (width wonGame) 5 7 \<and> win wonGame (horiz 5 4) \<noteq> Inr True"
proof -
  have h: "length (board wonGame) = height wonGame"
    by code_simp
  have w: "checkForWin wonGame = Inr True"
    by code_simp
  have c: "cellAt (mirror wonGame) 2 6 = Num 1"
    by code_simp
  have o: "\<not> inGrid (height wonGame) (width wonGame) 5 7" "(5, 7) \<in> set (horiz 5 4)"
    by code_simp+
  note m = checkForWin_mirror [OF h]
  from m have "checkForWin (mirror wonGame) = checkForWin wonGame" by blast
  moreover from m o have "win wonGame (horiz 5 4) \<noteq> Inr True" by blast
  ultimately show ?thesis using h w c o(1) by simp
qed

section \<open>After a piece has landed\<close>

subsection \<open>Rows stay complete\<close>

lemma aevery_rowOK:
  assumes "rowOK w r"
  shows "aevery truthy r = (\<forall>k. 0 \<le> k \<and> k < int w \<longrightarrow> truthy (aget r k))"
proof
  assume a: "aevery truthy r"
  show "\<forall>k. 0 \<le> k \<and> k < int w \<longrightarrow> truthy (aget r k)"
  proof (intro allI impI)
    fix k :: int
    assume k: "0 \<le> k \<and> k < int w"
    then have "nat k < len r" and "int (nat k) = k"
      using assms by (auto simp add: rowOK_def)
    with a have "case props r k of None \<Rightarrow> True | Some v \<Rightarrow> truthy v"
      unfolding aevery_iff by metis
    moreover from assms k have "props r k \<noteq> None"
      by (simp add: rowOK_def)
    ultimately show "truthy (aget r k)"
      by (auto simp add: aget_def)
  qed
next
  assume g: "\<forall>k. 0 \<le> k \<and> k < int w \<longrightarrow> truthy (aget r k)"
  show "aevery truthy r"
    unfolding aevery_iff
  proof (intro allI impI)
    fix i
    assume "i < len r"
    show "case props r (int i) of None \<Rightarrow> True | Some v \<Rightarrow> truthy v"
    proof (cases "props r (int i)")
      case None
      then show ?thesis by simp
    next
      case (Some v)
      show ?thesis
      proof (cases "i < w")
        case True
        with g have "truthy (aget r (int i))" by simp
        with Some show ?thesis by (simp add: aget_def)
      next
        case False
        with assms Some have "truthy v"
          unfolding rowOK_def by (metis of_nat_less_iff)
        with Some show ?thesis by simp
      qed
    qed
  qed
qed

lemma boardFull_allOccupied:
  assumes "length (board g) = height g" and "\<forall>r \<in> set (board g). rowOK (width g) r"
  shows "boardFull g = allOccupied g"
proof -
  have "aevery truthy (board g ! y) =
        (\<forall>k. 0 \<le> k \<and> k < int (width g) \<longrightarrow> truthy (cellAt g y k))"
    if "y < length (board g)" for y
    using that assms(2) by (simp add: aevery_rowOK cellAt_def)
  then have "boardFull g =
        (\<forall>y<length (board g). \<forall>k. 0 \<le> k \<and> k < int (width g) \<longrightarrow> truthy (cellAt g y k))"
    by (simp add: boardFull_def list_all_length)
  also have "\<dots> = allOccupied g"
    using assms(1) by (auto simp add: allOccupied_def inGrid_def)
  finally show ?thesis .
qed

lemma rowOK_aset: "rowOK w r \<Longrightarrow> truthy v \<Longrightarrow> rowOK w (aset r k v)"
  unfolding rowOK_def
  using len_aset [of r k v] by (auto simp add: props_aset)

lemma rowOK_emptyRow: "rowOK w (emptyRow w)"
  by (simp add: rowOK_def emptyRow_def)

lemma wellFormed_emptyGame: "wellFormed (emptyGame h w)"
  by (simp add: wellFormed_def emptyGame_def rowOK_emptyRow)

lemma wellFormed_setCell:
  assumes "wellFormed g" and "setCell g y x (Num (currPlayer g)) = Inr g1"
  shows "wellFormed g1"
proof -
  have t: "truthy (Num (currPlayer g))"
    using assms(1) by (auto simp add: wellFormed_def)
  have y: "y < length (board g)"
    using assms(2) by (rule setCell_fields(6))
  have b: "board g1 = (board g)[y := aset (board g ! y) x (Num (currPlayer g))]"
    using assms(2) y by (auto simp add: setCell_def)
  have "rowOK (width g) r" if "r \<in> set (board g1)" for r
  proof -
    from that b have "r = aset (board g ! y) x (Num (currPlayer g)) \<or> r \<in> set (board g)"
      using set_update_subset_insert [of "board g" y] by auto
    moreover have "rowOK (width g) (board g ! y)"
      using assms(1) y by (simp add: wellFormed_def)
    ultimately show ?thesis
      using assms(1) t by (auto simp add: wellFormed_def rowOK_aset)
  qed
  then show ?thesis
    using assms(1) setCell_fields [OF assms(2)] by (simp add: wellFormed_def)
qed

lemma handleClick_shape:
  "handleClick g x = (out, g') \<Longrightarrow>
   g' = g \<or>
   (\<exists>y g1. \<not> gameOver g \<and> findSpotForCol g x = Inr (Some y) \<and>
      setCell g y x (Num (currPlayer g)) = Inr g1 \<and>
      (g' = g1 \<and> (\<exists>e. out = Threw e) \<or> g' = endGame g1 \<and> (\<exists>m. out = Ended m) \<or>
       g' = g1\<lparr>currPlayer := (if currPlayer g = 1 then 2 else 1)\<rparr> \<and> out = Moved))"
  unfolding handleClick_def
  by (auto split: if_splits sum.splits option.splits bool.splits
           dest: setCell_fields(3))

lemma wellFormed_handleClick:
  assumes "wellFormed g"
  shows "wellFormed (snd (handleClick g x))"
proof -
  obtain out g' where r: "handleClick g x = (out, g')"
    by (cases "handleClick g x")
  from handleClick_shape [OF r] show ?thesis
  proof (elim disjE exE conjE)
    assume "g' = g"
    with r assms show ?thesis by simp
  next
    fix y g1
    assume s: "setCell g y x (Num (currPlayer g)) = Inr g1"
    note w = wellFormed_setCell [OF assms s]
    {
      assume "g' = g1"
      with r w show ?thesis by simp
    next
      assume "g' = endGame g1"
      with r w show ?thesis by (simp add: wellFormed_def endGame_def)
    next
      assume "g' = g1\<lparr>currPlayer := (if currPlayer g = 1 then 2 else 1)\<rparr>"
      with r w show ?thesis by (simp add: wellFormed_def)
    }
  qed
qed

lemma snd_play_Cons: "snd (play g (x # xs)) = snd (play (snd (handleClick g x)) xs)"
  by (simp split: prod.splits)

lemma wellFormed_play: "wellFormed g \<Longrightarrow> wellFormed (snd (play g xs))"
proof (induction xs arbitrary: g)
  case Nil
  then show ?case by simp
next
  case (Cons x xs)
  from Cons.IH [OF wellFormed_handleClick [OF Cons.prems, of x]]
  show ?case by (simp only: snd_play_Cons)
qed

lemma allOccupied_boardFull: "wellFormed g \<Longrightarrow> allOccupied g = boardFull g"
  by (simp add: boardFull_allOccupied wellFormed_def)

text \<open>
  Claim C3. Let a click on a column of the grid find the row \<open>y\<close>, and let \<open>g1\<close> be the
  state with the piece written. Then the click checks in this order: if \<open>checkForWin\<close>
  on \<open>g1\<close> reports a win (for the player who just moved, as the turn has not advanced),
  the game ends with the message that this player won; otherwise, if every cell of the
  grid is occupied, it ends with a tie; otherwise the active player becomes the other
  one. So a move that completes a run and fills the board is a win, not a tie, and the
  active player changes exactly when the game goes on. The state \<open>g\<close> is well formed, as
  every state reached from the start button by clicks is.
\<close>

theorem handleClick_evaluation_order:
  assumes "wellFormed g" and "\<not> gameOver g" and "0 \<le> x" and "x < int (width g)"
    and "findSpotForCol g x = Inr (Some y)"
    and "setCell g y x (Num (currPlayer g)) = Inr g1"
  shows "handleClick g x =
           (if checkForWin g1 = Inr True
            then (Ended (PlayerWon (currPlayer g)), g1\<lparr>gameOver := True\<rparr>)
            else if allOccupied g1 then (Ended Tie, g1\<lparr>gameOver := True\<rparr>)
            else (Moved, g1\<lparr>currPlayer := (if currPlayer g = 1 then 2 else 1)\<rparr>)) \<and>
         (currPlayer (snd (handleClick g x)) \<noteq> currPlayer g) =
           (\<not> gameOver (snd (handleClick g x))) \<and>
         (currPlayer (snd (handleClick g x)) = 1 \<or> currPlayer (snd (handleClick g x)) = 2)"
proof -
  note f = setCell_fields [OF assms(6)]
  have l: "length (board g) = height g"
    using assms(1) by (simp add: wellFormed_def)
  have w1: "wellFormed g1"
    using assms(1,6) by (rule wellFormed_setCell)
  have c: "checkForWin g1 = Inr (anyWin g1)"
    using f l by (simp add: checkForWin_ok)
  have t: "boardFull g1 = allOccupied g1"
    using w1 by (intro boardFull_allOccupied) (simp_all add: wellFormed_def)
  have step: "handleClick g x =
           (if checkForWin g1 = Inr True
            then (Ended (PlayerWon (currPlayer g)), g1\<lparr>gameOver := True\<rparr>)
            else if allOccupied g1 then (Ended Tie, g1\<lparr>gameOver := True\<rparr>)
            else (Moved, g1\<lparr>currPlayer := (if currPlayer g = 1 then 2 else 1)\<rparr>))"
    using handleClick_placed [OF assms(2,5,6,3,4) l] by (simp add: c t endGame_def)
  have p: "currPlayer g = 1 \<or> currPlayer g = 2"
    using assms(1) by (simp add: wellFormed_def)
  have "(currPlayer (snd (handleClick g x)) \<noteq> currPlayer g) =
           (\<not> gameOver (snd (handleClick g x)))"
    using assms(2) f(3,4) by (simp add: step)
  moreover have "currPlayer (snd (handleClick g x)) = 1 \<or> currPlayer (snd (handleClick g x)) = 2"
    using p f(3) by (auto simp add: step)
  ultimately show ?thesis using step by simp
qed

text \<open>
  Three moves: the last cell of the one-row board, which completes four in a row and
  fills the board, ends the game as a win of player 1; the last cell of the 2 by 2 board
  ends it as a tie; the first move on the empty 6 by 7 board passes the turn to
  player 2.
\<close>

theorem handleClick_evaluation_order_witness:
  "wellFormed lastMoveGame \<and> \<not> gameOver lastMoveGame \<and>
   findSpotForCol lastMoveGame 3 = Inr (Some 0) \<and>
   fst (handleClick lastMoveGame 3) = Ended (PlayerWon 1) \<and>
   boardFull (snd (handleClick lastMoveGame 3)) \<and>
   gameOver (snd (handleClick lastMoveGame 3)) \<and>
   currPlayer (snd (handleClick lastMoveGame 3)) = currPlayer lastMoveGame \<and>
   wellFormed nearlyTiedGame \<and> \<not> gameOver nearlyTiedGame \<and>
   findSpotForCol nearlyTiedGame 1 = Inr (Some 0) \<and>
   fst (handleClick nearlyTiedGame 1) = Ended Tie \<and>
   gameOver (snd (handleClick nearlyTiedGame 1)) \<and>
   currPlayer (snd (handleClick nearlyTiedGame 1)) = currPlayer nearlyTiedGame \<and>
   wellFormed (emptyGame 6 7) \<and> findSpotForCol (emptyGame 6 7) 3 = Inr (Some 5) \<and>
   fst (handleClick (emptyGame 6 7) 3) = Moved \<and>
   \<not> gameOver (snd (handleClick (emptyGame 6 7) 3)) \<and>
   currPlayer (emptyGame 6 7) = 1 \<and> currPlayer (snd (handleClick (emptyGame 6 7) 3)) = 2"
proof -
  let ?a = lastMoveGame and ?b = nearlyTiedGame and ?c = "emptyGame 6 7"
  define a1 where "a1 = ?a\<lparr>board := (board ?a)[0 := aset (board ?a ! 0) 3 (Num (currPlayer ?a))]\<rparr>"
  define b1 where "b1 = ?b\<lparr>board := (board ?b)[0 := aset (board ?b ! 0) 1 (Num (currPlayer ?b))]\<rparr>"
  define c1 where "c1 = ?c\<lparr>board := (board ?c)[5 := aset (board ?c ! 5) 3 (Num (currPlayer ?c))]\<rparr>"
  have wa: "wellFormed ?a"
    unfolding lastMoveGame_def by (rule wellFormed_play [OF wellFormed_emptyGame])
  have wb: "wellFormed ?b"
    unfolding nearlyTiedGame_def by (rule wellFormed_play [OF wellFormed_emptyGame])
  have wc: "wellFormed ?c"
    by (rule wellFormed_emptyGame)
  have na: "\<not> gameOver ?a" "(3::int) < int (width ?a)" "0 < length (board ?a)" "currPlayer ?a = 1"
    by code_simp+
  have nb: "\<not> gameOver ?b" "(1::int) < int (width ?b)" "0 < length (board ?b)"
    by code_simp+
  have nc: "\<not> gameOver ?c" "(3::int) < int (width ?c)" "5 < length (board ?c)" "currPlayer ?c = 1"
    by code_simp+
  have sa: "findSpotForCol ?a 3 = Inr (Some 0)" and sb: "findSpotForCol ?b 1 = Inr (Some 0)"
    and sc: "findSpotForCol ?c 3 = Inr (Some 5)"
    by code_simp+
  have pa: "setCell ?a 0 3 (Num (currPlayer ?a)) = Inr a1"
    using na(3) by (simp add: setCell_ok a1_def)
  have pb: "setCell ?b 0 1 (Num (currPlayer ?b)) = Inr b1"
    using nb(3) by (simp add: setCell_ok b1_def)
  have pc: "setCell ?c 5 3 (Num (currPlayer ?c)) = Inr c1"
    using nc(3) by (simp add: setCell_ok c1_def)
  have ca: "checkForWin a1 = Inr True" and fa: "boardFull a1"
    unfolding a1_def by code_simp+
  have cb: "checkForWin b1 = Inr False" and fb: "boardFull b1"
    unfolding b1_def by code_simp+
  have cc: "checkForWin c1 = Inr False" and fc: "\<not> boardFull c1"
    unfolding c1_def by code_simp+
  have ob: "allOccupied b1"
    using wellFormed_setCell [OF wb pb] fb by (simp add: allOccupied_boardFull)
  have oc: "\<not> allOccupied c1"
    using wellFormed_setCell [OF wc pc] fc by (simp add: allOccupied_boardFull)
  have ra: "handleClick ?a 3 = (Ended (PlayerWon 1), a1\<lparr>gameOver := True\<rparr>)"
    using handleClick_evaluation_order [OF wa na(1) _ na(2) sa pa] ca na(4) by simp
  have rb: "handleClick ?b 1 = (Ended Tie, b1\<lparr>gameOver := True\<rparr>)"
    using handleClick_evaluation_order [OF wb nb(1) _ nb(2) sb pb] cb ob by simp
  have rc: "handleClick ?c 3 = (Moved, c1\<lparr>currPlayer := 2\<rparr>)"
    using handleClick_evaluation_order [OF wc nc(1) _ nc(2) sc pc] cc oc nc(4) by simp
  have "boardFull (snd (handleClick ?a 3))"
    using fa by (simp add: ra boardFull_def)
  moreover have "currPlayer a1 = currPlayer ?a" "currPlayer b1 = currPlayer ?b" "\<not> gameOver c1"
    using nc(1) by (simp_all add: a1_def b1_def c1_def)
  ultimately show ?thesis
    using wa wb wc na(1) nb(1) sa sb sc nc(4) by (simp add: ra rb rc)
qed

section \<open>Columns outside the grid\<close>

text \<open>
  Claim C6 says that a column outside \<open>[0, W)\<close> is refused as an invalid column and that
  the board is left as it was. The code has no such check. On the empty 6 by 7 board a
  click on column \<open>-1\<close> writes player 1 at the key \<open>-1\<close> of the bottom row before
  \<open>placeInTable\<close> raises a TypeError, and a click on column 7 makes the bottom row one
  element longer. After six clicks on column \<open>-1\<close> a seventh raises nothing at all: it
  returns as a click on a full column does.
\<close>

theorem handleClick_invalid_column_counterexample:
  "\<not> gameOver (emptyGame 6 7) \<and>
   fst (handleClick (emptyGame 6 7) (- 1)) = Threw TypeError \<and>
   props (board (emptyGame 6 7) ! 5) (- 1) = None \<and>
   props (board (snd (handleClick (emptyGame 6 7) (- 1))) ! 5) (- 1) = Some (Num 1) \<and>
   fst (handleClick (emptyGame 6 7) 7) = Threw TypeError \<and>
   len (board (emptyGame 6 7) ! 5) = 7 \<and>
   len (board (snd (handleClick (emptyGame 6 7) 7)) ! 5) = 8 \<and>
   props (board (snd (handleClick (emptyGame 6 7) 7)) ! 5) 7 = Some (Num 1) \<and>
   \<not> gameOver (snd (play (emptyGame 6 7) [- 1, - 1, - 1, - 1, - 1, - 1])) \<and>
   fst (handleClick (snd (play (emptyGame 6 7) [- 1, - 1, - 1, - 1, - 1, - 1])) (- 1)) = Ignored"
  by code_simp

text \<open>
  Claim C6 as amended. In a game that is not over, on a board of \<open>height\<close> rows, a click
  on a column \<open>x\<close> outside \<open>[0, W)\<close> is not validated. If the key \<open>x\<close> of every row
  already holds a truthy value (or there are no rows), the click returns without effect.
  Otherwise it writes the active player's number at the key \<open>x\<close> of the lowest row
  whose key \<open>x\<close> is empty (the row \<open>y\<close> with the largest index that is falsy there:
  every row below it is truthy at \<open>x\<close>), which is outside the grid, changes no other
  key of any row, and then raises a TypeError in \<open>placeInTable\<close>. Either way every
  cell of the grid, the active player, \<open>gameOver\<close>, the dimensions and the number of
  rows are unchanged.
\<close>

theorem handleClick_invalid_column:
  assumes "length (board g) = height g" and "\<not> gameOver g"
    and "x < 0 \<or> int (width g) \<le> x"
  shows "(if \<forall>y<height g. truthy (cellAt g y x) then handleClick g x = (Ignored, g)
          else \<exists>y g1. y < height g \<and> \<not> truthy (cellAt g y x) \<and>
                 (\<forall>y'. y < y' \<and> y' < height g \<longrightarrow> truthy (cellAt g y' x)) \<and>
                 findSpotForCol g x = Inr (Some y) \<and>
                 setCell g y x (Num (currPlayer g)) = Inr g1 \<and>
                 g1 = g\<lparr>board := (board g)[y := aset (board g ! y) x (Num (currPlayer g))]\<rparr> \<and>
                 cellAt g1 y x = Num (currPlayer g) \<and>
                 (\<forall>y' x'. (y', x') \<noteq> (y, x) \<longrightarrow> cellAt g1 y' x' = cellAt g y' x') \<and>
                 handleClick g x = (Threw TypeError, g1)) \<and>
         (\<forall>y x'. inGrid (height g) (width g) y x' \<longrightarrow>
            cellAt (snd (handleClick g x)) y x' = cellAt g y x') \<and>
         currPlayer (snd (handleClick g x)) = currPlayer g \<and>
         gameOver (snd (handleClick g x)) = gameOver g \<and>
         height (snd (handleClick g x)) = height g \<and>
         width (snd (handleClick g x)) = width g \<and>
         length (board (snd (handleClick g x))) = height g"
proof (cases "\<forall>y<height g. truthy (cellAt g y x)")
  case True
  then have "findSpotForCol g x = Inr None"
    using findSpotLoop_None [of "height g" g x] assms(1) by (simp add: findSpotForCol_def)
  then have "handleClick g x = (Ignored, g)"
    by (rule handleClick_null)
  with True assms(1) show ?thesis by simp
next
  case False
  then obtain y0 where "y0 < height g" "\<not> truthy (cellAt g y0 x)" by blast
  with findSpotLoop_found [of "height g" g y0 x] assms(1)
  obtain y where spot: "findSpotForCol g x = Inr (Some y)"
    by (auto simp add: findSpotForCol_def)
  then have low: "y < height g" "y < length (board g)" "\<not> truthy (cellAt g y x)"
    "\<forall>y'. y < y' \<and> y' < height g \<longrightarrow> truthy (cellAt g y' x)"
    using findSpotLoop_Some [of g x "height g" y] by (simp_all add: findSpotForCol_def)
  define g1 where "g1 = g\<lparr>board := (board g)[y := aset (board g ! y) x (Num (currPlayer g))]\<rparr>"
  have put: "setCell g y x (Num (currPlayer g)) = Inr g1"
    using low(2) by (simp add: setCell_ok g1_def)
  have off: "\<not> (0 \<le> x \<and> x < int (width g))"
    using assms(3) by auto
  note r = handleClick_offGrid [OF assms(2) spot put off]
  note f = setCell_fields [OF put]
  note c = setCell_cellAt [OF put]
  have here: "cellAt g1 y x = Num (currPlayer g)"
    by (simp add: c)
  have others: "\<forall>y' x'. (y', x') \<noteq> (y, x) \<longrightarrow> cellAt g1 y' x' = cellAt g y' x'"
    by (auto simp add: c)
  have grid: "\<forall>y' x'. inGrid (height g) (width g) y' x' \<longrightarrow>
      cellAt (snd (handleClick g x)) y' x' = cellAt g y' x'"
    using off by (auto simp add: r c inGrid_def)
  have branch: "\<exists>y g1. y < height g \<and> \<not> truthy (cellAt g y x) \<and>
      (\<forall>y'. y < y' \<and> y' < height g \<longrightarrow> truthy (cellAt g y' x)) \<and>
      findSpotForCol g x = Inr (Some y) \<and>
      setCell g y x (Num (currPlayer g)) = Inr g1 \<and>
      g1 = g\<lparr>board := (board g)[y := aset (board g ! y) x (Num (currPlayer g))]\<rparr> \<and>
      cellAt g1 y x = Num (currPlayer g) \<and>
      (\<forall>y' x'. (y', x') \<noteq> (y, x) \<longrightarrow> cellAt g1 y' x' = cellAt g y' x') \<and>
      handleClick g x = (Threw TypeError, g1)"
    using low(1,3,4) spot put g1_def here others r by blast
  have rest: "currPlayer (snd (handleClick g x)) = currPlayer g"
    "gameOver (snd (handleClick g x)) = gameOver g"
    "height (snd (handleClick g x)) = height g"
    "width (snd (handleClick g x)) = width g"
    "length (board (snd (handleClick g x))) = height g"
    using f assms(1) by (simp_all add: r)
  from False have "(if \<forall>y<height g. truthy (cellAt g y x) then handleClick g x = (Ignored, g)
          else \<exists>y g1. y < height g \<and> \<not> truthy (cellAt g y x) \<and>
                 (\<forall>y'. y < y' \<and> y' < height g \<longrightarrow> truthy (cellAt g y' x)) \<and>
                 findSpotForCol g x = Inr (Some y) \<and>
                 setCell g y x (Num (currPlayer g)) = Inr g1 \<and>
                 g1 = g\<lparr>board := (board g)[y := aset (board g ! y) x (Num (currPlayer g))]\<rparr> \<and>
                 cellAt g1 y x = Num (currPlayer g) \<and>
                 (\<forall>y' x'. (y', x') \<noteq> (y, x) \<longrightarrow> cellAt g1 y' x' = cellAt g y' x') \<and>
                 handleClick g x = (Threw TypeError, g1))"
    using branch by (simp only: if_False)
  with grid rest show ?thesis by (intro conjI)
qed

text \<open>
  Column \<open>-1\<close> on the empty 6 by 7 board: the row written is row 5, the bottom row, and
  the rows above it keep their key \<open>-1\<close> empty.
\<close>

theorem handleClick_invalid_column_witness:
  "length (board (emptyGame 6 7)) = height (emptyGame 6 7) \<and> \<not> gameOver (emptyGame 6 7) \<and>
   (- 1 :: int) < 0 \<and> \<not> truthy (cellAt (emptyGame 6 7) 5 (- 1)) \<and>
   fst (handleClick (emptyGame 6 7) (- 1)) = Threw TypeError \<and>
   cellAt (snd (handleClick (emptyGame 6 7) (- 1))) 5 (- 1) = Num 1 \<and>
   cellAt (snd (handleClick (emptyGame 6 7) (- 1))) 4 (- 1) = Undefined \<and>
   cellAt (snd (handleClick (emptyGame 6 7) (- 1))) 0 (- 1) = Undefined \<and>
   cellAt (snd (handleClick (emptyGame 6 7) (- 1))) 5 0 = Undefined \<and>
   currPlayer (snd (handleClick (emptyGame 6 7) (- 1))) = 1 \<and>
   \<not> gameOver (snd (handleClick (emptyGame 6 7) (- 1)))"
proof -
  let ?g = "emptyGame 6 7"
  have h: "length (board ?g) = height ?g" "\<not> gameOver ?g" "currPlayer ?g = 1"
    "inGrid (height ?g) (width ?g) 5 0" "height ?g = 6"
    by (simp_all add: emptyGame_def inGrid_def)
  have e: "\<not> truthy (cellAt ?g 5 (- 1))" "cellAt ?g 5 0 = Undefined"
    "cellAt ?g 4 (- 1) = Undefined" "cellAt ?g 0 (- 1) = Undefined"
    by (simp_all add: cellAt_emptyGame)
  have n: "\<not> (\<forall>y<height ?g. truthy (cellAt ?g y (- 1)))"
    using e(1) h(5) by (intro notI) simp
  note t = handleClick_invalid_column [OF h(1,2), of "- 1"]
  from t n obtain y g1 where y: "y < height ?g"
    "\<forall>y'. y < y' \<and> y' < height ?g \<longrightarrow> truthy (cellAt ?g y' (- 1))"
    "cellAt g1 y (- 1) = Num (currPlayer ?g)"
    "\<forall>y' x'. (y', x') \<noteq> (y, - 1) \<longrightarrow> cellAt g1 y' x' = cellAt ?g y' x'"
    "handleClick ?g (- 1) = (Threw TypeError, g1)"
    by auto
  have "y = 5"
  proof (rule ccontr)
    assume "y \<noteq> 5"
    with y(1) h(5) have "y < 5" by simp
    with y(2) h(5) have "truthy (cellAt ?g 5 (- 1))" by simp
    with e(1) show False by simp
  qed
  with y(3,4) have "cellAt g1 5 (- 1) = Num (currPlayer ?g)"
    "cellAt g1 4 (- 1) = cellAt ?g 4 (- 1)" "cellAt g1 0 (- 1) = cellAt ?g 0 (- 1)"
    by simp_all
  with y(5) h(3) e(3,4)
  have "fst (handleClick ?g (- 1)) = Threw TypeError"
    "cellAt (snd (handleClick ?g (- 1))) 5 (- 1) = Num 1"
    "cellAt (snd (handleClick ?g (- 1))) 4 (- 1) = Undefined"
    "cellAt (snd (handleClick ?g (- 1))) 0 (- 1) = Undefined"
    by simp_all
  moreover from t h(4) have "cellAt (snd (handleClick ?g (- 1))) 5 0 = cellAt ?g 5 0"
    by simp
  moreover from t have "currPlayer (snd (handleClick ?g (- 1))) = currPlayer ?g"
    "gameOver (snd (handleClick ?g (- 1))) = gameOver ?g"
    by simp_all
  ultimately show ?thesis using h e by simp
qed

section \<open>Lemmas about the second variant\<close>

lemma getCellP_Inr: "getCellP g y x = Inr v \<Longrightarrow> y < length (boardP g) \<and> v = cellAtP g y x"
  by (auto simp add: getCellP_def cellAtP_def split: if_splits)

lemma setCellP_fields:
  assumes "setCellP g y x v = Inr g1"
  shows "heightP g1 = heightP g" and "widthP g1 = widthP g" and "currPlayerP g1 = currPlayerP g"
    and "gameOverP g1 = gameOverP g" and "length (boardP g1) = length (boardP g)"
    and "players g1 = players g" and "y < length (boardP g)"
  using assms by (auto simp add: setCellP_def split: if_splits)

lemma setCellP_cellAtP:
  assumes "setCellP g y x v = Inr g1"
  shows "cellAtP g1 y' x' = (if y' = y \<and> x' = x then v else cellAtP g y' x')"
  using assms
  by (auto simp add: setCellP_def cellAtP_def aget_aset nth_list_update split: if_splits)

lemma findSpotLoopP_Some:
  "findSpotLoopP g x n = Inr (Some y) \<Longrightarrow>
   y < n \<and> y < length (boardP g) \<and> \<not> truthy (cellAtP g y x)"
proof (induction n)
  case 0
  then show ?case by simp
next
  case (Suc n)
  show ?case
  proof (cases "getCellP g n x")
    case (Inl e)
    with Suc.prems show ?thesis by simp
  next
    case (Inr c)
    then have c: "n < length (boardP g)" "c = cellAtP g n x"
      using getCellP_Inr by blast+
    show ?thesis
    proof (cases "truthy c")
      case True
      with Suc.prems Inr have "findSpotLoopP g x n = Inr (Some y)" by simp
      from Suc.IH [OF this] show ?thesis by simp
    next
      case False
      with Suc.prems Inr have "y = n" by simp
      with False c show ?thesis by auto
    qed
  qed
qed

lemma handleClickP_shape:
  "handleClickP g x = (out, g') \<Longrightarrow>
   g' = g \<or>
   (\<exists>y g1. \<not> gameOverP g \<and> findSpotForColP g x = Inr (Some y) \<and>
      setCellP g y x (playerNow g) = Inr g1 \<and>
      (g' = g1 \<and> (\<exists>e. out = Threw e) \<or> g' = endGameP g1 \<and> (\<exists>m. out = Ended m) \<or>
       g' = g1\<lparr>currPlayerP := (if currPlayerP g = 0 then 1 else 0)\<rparr> \<and> out = Moved))"
  unfolding handleClickP_def
  by (auto split: if_splits sum.splits option.splits bool.splits
           dest: setCellP_fields(3))

section \<open>The invariant of the grid\<close>

lemma playerCell_falsy: "playerCell v \<Longrightarrow> \<not> truthy v \<Longrightarrow> v = Undefined"
  by (auto simp add: playerCell_def)

lemma playerCellP_falsy: "playerCellP g v \<Longrightarrow> \<not> truthy v \<Longrightarrow> v = Undefined"
  by (auto simp add: playerCellP_def)

lemma gridInv_emptyGame: "gridInv (emptyGame h w)"
  by (simp add: gridInv_def emptyGame_def inGrid_def cellAt_def emptyRow_def aget_def
        playerCell_def)

lemma gridInvP_emptyGameP: "gridInvP (emptyGameP h w c1 c2)"
  by (simp add: gridInvP_def emptyGameP_def inGrid_def cellAtP_def emptyRow_def aget_def
        playerCellP_def)

lemma gridInv_setCell:
  assumes "gridInv g" and "findSpotForCol g x = Inr (Some y)"
    and "setCell g y x (Num (currPlayer g)) = Inr g1"
  shows "gridInv g1"
    and "\<forall>y' x'. inGrid (height g) (width g) y' x' \<and> cellAt g1 y' x' \<noteq> cellAt g y' x' \<longrightarrow>
           cellAt g y' x' = Undefined \<and> cellAt g1 y' x' = Num (currPlayer g)"
proof -
  note f = setCell_fields [OF assms(3)]
  note c = setCell_cellAt [OF assms(3)]
  have e: "\<not> truthy (cellAt g y x)"
    using findSpotLoop_Some [of g x "height g" y] assms(2) by (simp add: findSpotForCol_def)
  have p: "playerCell (Num (currPlayer g))"
    using assms(1) by (auto simp add: gridInv_def playerCell_def)
  show "gridInv g1"
    using assms(1) f p by (auto simp add: gridInv_def c)
  show "\<forall>y' x'. inGrid (height g) (width g) y' x' \<and> cellAt g1 y' x' \<noteq> cellAt g y' x' \<longrightarrow>
           cellAt g y' x' = Undefined \<and> cellAt g1 y' x' = Num (currPlayer g)"
    using assms(1) e by (auto simp add: c gridInv_def dest: playerCell_falsy)
qed

lemma playerNow_playerCellP:
  "gridInvP g \<Longrightarrow> playerCellP g (playerNow g)"
  by (auto simp add: gridInvP_def playerNow_def playerCellP_def)

lemma gridInvP_setCellP:
  assumes "gridInvP g" and "findSpotForColP g x = Inr (Some y)"
    and "setCellP g y x (playerNow g) = Inr g1"
  shows "gridInvP g1"
    and "\<forall>y' x'. inGrid (heightP g) (widthP g) y' x' \<and> cellAtP g1 y' x' \<noteq> cellAtP g y' x' \<longrightarrow>
           cellAtP g y' x' = Undefined \<and> cellAtP g1 y' x' = playerNow g"
proof -
  note f = setCellP_fields [OF assms(3)]
  note c = setCellP_cellAtP [OF assms(3)]
  have e: "\<not> truthy (cellAtP g y x)"
    using findSpotLoopP_Some [of g x "heightP g" y] assms(2) by (simp add: findSpotForColP_def)
  note p = playerNow_playerCellP [OF assms(1)]
  have q: "playerCellP g1 v = playerCellP g v" for v
    by (simp add: playerCellP_def f)
  show "gridInvP g1"
    using assms(1) f p by (auto simp add: gridInvP_def c q)
  show "\<forall>y' x'. inGrid (heightP g) (widthP g) y' x' \<and> cellAtP g1 y' x' \<noteq> cellAtP g y' x' \<longrightarrow>
           cellAtP g y' x' = Undefined \<and> cellAtP g1 y' x' = playerNow g"
    using assms(1) e by (auto simp add: c gridInvP_def dest: playerCellP_falsy)
qed

lemma gridInv_handleClick:
  assumes "gridInv g"
  shows "gridInv (snd (handleClick g x)) \<and>
         (\<forall>y x'. inGrid (height g) (width g) y x' \<and>
              cellAt (snd (handleClick g x)) y x' \<noteq> cellAt g y x' \<longrightarrow>
            cellAt g y x' = Undefined \<and> cellAt (snd (handleClick g x)) y x' = Num (currPlayer g))"
proof -
  obtain out g' where r: "handleClick g x = (out, g')"
    by (cases "handleClick g x")
  from handleClick_shape [OF r] show ?thesis
  proof (elim disjE exE conjE)
    assume "g' = g"
    with r assms show ?thesis by simp
  next
    fix y g1
    assume s: "findSpotForCol g x = Inr (Some y)"
      and p: "setCell g y x (Num (currPlayer g)) = Inr g1"
    note i = gridInv_setCell [OF assms s p]
    have k: "gridInv (endGame g1)" "gridInv (g1\<lparr>currPlayer := (if currPlayer g = 1 then 2 else 1)\<rparr>)"
      using i(1) by (simp_all add: gridInv_def endGame_def cellAt_def)
    have c: "cellAt (endGame g1) = cellAt g1"
      "cellAt (g1\<lparr>currPlayer := (if currPlayer g = 1 then 2 else 1)\<rparr>) = cellAt g1"
      by (simp_all add: cellAt_def endGame_def fun_eq_iff)
    {
      assume "g' = g1"
      with r i show ?thesis by simp
    next
      assume "g' = endGame g1"
      with r i k c show ?thesis by simp
    next
      assume "g' = g1\<lparr>currPlayer := (if currPlayer g = 1 then 2 else 1)\<rparr>"
      with r i k c show ?thesis by simp
    }
  qed
qed

lemma gridInvP_handleClickP:
  assumes "gridInvP g"
  shows "gridInvP (snd (handleClickP g x)) \<and>
         (\<forall>y x'. inGrid (heightP g) (widthP g) y x' \<and>
              cellAtP (snd (handleClickP g x)) y x' \<noteq> cellAtP g y x' \<longrightarrow>
            cellAtP g y x' = Undefined \<and> cellAtP (snd (handleClickP g x)) y x' = playerNow g)"
proof -
  obtain out g' where r: "handleClickP g x = (out, g')"
    by (cases "handleClickP g x")
  from handleClickP_shape [OF r] show ?thesis
  proof (elim disjE exE conjE)
    assume "g' = g"
    with r assms show ?thesis by simp
  next
    fix y g1
    assume s: "findSpotForColP g x = Inr (Some y)"
      and p: "setCellP g y x (playerNow g) = Inr g1"
    note i = gridInvP_setCellP [OF assms s p]
    have k: "gridInvP (endGameP g1)"
      "gridInvP (g1\<lparr>currPlayerP := (if currPlayerP g = 0 then 1 else 0)\<rparr>)"
      using i(1) by (simp_all add: gridInvP_def endGameP_def cellAtP_def playerCellP_def)
    have c: "cellAtP (endGameP g1) = cellAtP g1"
      "cellAtP (g1\<lparr>currPlayerP := (if currPlayerP g = 0 then 1 else 0)\<rparr>) = cellAtP g1"
      by (simp_all add: cellAtP_def endGameP_def fun_eq_iff)
    {
      assume "g' = g1"
      with r i show ?thesis by simp
    next
      assume "g' = endGameP g1"
      with r i k c show ?thesis by simp
    next
      assume "g' = g1\<lparr>currPlayerP := (if currPlayerP g = 0 then 1 else 0)\<rparr>"
      with r i k c show ?thesis by simp
    }
  qed
qed

text \<open>
  Claim C10. A click on any column, in range or not, keeps the invariant of the grid:
  the board has \<open>height\<close> rows, every cell of the grid is empty or holds one of the two
  players, and the active player is one of the two (1 or 2 in \<open>connect4.js\<close>;
  \<open>players[0]\<close> or \<open>players[1]\<close> in the variant with \<open>Player\<close> objects). A cell of the
  grid that the click changes was empty before and holds the active player after, so
  no occupied cell is overwritten and no other value is written.
\<close>

theorem handleClick_preserves_grid_invariant:
  "(gridInv g \<longrightarrow>
      gridInv (snd (handleClick g x)) \<and>
      (\<forall>y x'. inGrid (height g) (width g) y x' \<and>
           cellAt (snd (handleClick g x)) y x' \<noteq> cellAt g y x' \<longrightarrow>
         cellAt g y x' = Undefined \<and>
         cellAt (snd (handleClick g x)) y x' = Num (currPlayer g))) \<and>
   (gridInvP gp \<longrightarrow>
      gridInvP (snd (handleClickP gp x)) \<and>
      (\<forall>y x'. inGrid (heightP gp) (widthP gp) y x' \<and>
           cellAtP (snd (handleClickP gp x)) y x' \<noteq> cellAtP gp y x' \<longrightarrow>
         cellAtP gp y x' = Undefined \<and>
         cellAtP (snd (handleClickP gp x)) y x' = playerNow gp))"
  using gridInv_handleClick gridInvP_handleClickP by blast

text \<open>
  The first click on the empty 6 by 7 board, on column 3, in both variants, and a click
  on column 7 outside the grid.
\<close>

theorem handleClick_preserves_grid_invariant_witness:
  "gridInv (emptyGame 6 7) \<and> gridInv (snd (handleClick (emptyGame 6 7) 3)) \<and>
   cellAt (emptyGame 6 7) 5 3 = Undefined \<and>
   cellAt (snd (handleClick (emptyGame 6 7) 3)) 5 3 = Num 1 \<and>
   gridInv (snd (handleClick (emptyGame 6 7) 7)) \<and>
   gridInvP (emptyGameP 6 7 ''red'' ''blue'') \<and>
   gridInvP (snd (handleClickP (emptyGameP 6 7 ''red'' ''blue'') 3)) \<and>
   cellAtP (emptyGameP 6 7 ''red'' ''blue'') 5 3 = Undefined \<and>
   cellAtP (snd (handleClickP (emptyGameP 6 7 ''red'' ''blue'') 3)) 5 3 = Obj 0"
proof -
  let ?a = "emptyGame 6 7" and ?b = "emptyGameP 6 7 ''red'' ''blue''"
  have ia: "gridInv ?a" by (rule gridInv_emptyGame)
  have ib: "gridInvP ?b" by (rule gridInvP_emptyGameP)
  note ta = handleClick_preserves_grid_invariant [of ?a 3 ?b, THEN conjunct1, rule_format, OF ia]
  note ta7 = handleClick_preserves_grid_invariant [of ?a 7 ?b, THEN conjunct1, rule_format, OF ia]
  note tb = handleClick_preserves_grid_invariant [of ?a 3 ?b, THEN conjunct2, rule_format, OF ib]
  have ga: "inGrid (height ?a) (width ?a) 5 3" "currPlayer ?a = 1"
    "cellAt (snd (handleClick ?a 3)) 5 3 \<noteq> cellAt ?a 5 3"
    by code_simp+
  have gb: "inGrid (heightP ?b) (widthP ?b) 5 3" "playerNow ?b = Obj 0"
    "cellAtP (snd (handleClickP ?b 3)) 5 3 \<noteq> cellAtP ?b 5 3"
    by code_simp+
  from ta ga have "cellAt ?a 5 3 = Undefined \<and> cellAt (snd (handleClick ?a 3)) 5 3 = Num 1"
    by (metis (no_types))
  moreover from tb gb
  have "cellAtP ?b 5 3 = Undefined \<and> cellAtP (snd (handleClickP ?b 3)) 5 3 = Obj 0"
    by (metis (no_types))
  ultimately show ?thesis using ia ib ta ta7 tb by simp
qed

section \<open>The start button\<close>

lemma Array_from_big: "4294967295 < w \<Longrightarrow> Array_from w = Inl RangeError"
  by (simp add: Array_from_def)

lemma startClick_restart:
  assumes "board g \<noteq> []" and "width g \<le> 4294967295"
  shows "startClick g =
           Inr (g\<lparr>board := replicate (height g) (emptyRow (width g)), gameOver := False\<rparr>)"
  using assms by (simp add: startClick_def resetGame_def makeBoard_def makeBoardLoop_ok Let_def)

lemma makeBoardLoopP_ok:
  "widthP g \<le> 4294967295 \<Longrightarrow>
   makeBoardLoopP n g = Inr (g\<lparr>boardP := boardP g @ replicate n (emptyRow (widthP g))\<rparr>)"
  by (induction n arbitrary: g) (simp_all add: Array_from_ok replicate_app_Cons_same)

lemma startClickP_newGameP:
  "w \<le> 4294967295 \<Longrightarrow> startClickP (newGameP h w) c1 c2 = Inr (emptyGameP h w c1 c2)"
  by (simp add: startClickP_def newGameP_def makeBoardP_def makeBoardLoopP_ok emptyGameP_def
        setPlayers_def newPlayer_def)

lemma startClickP_restart:
  assumes "boardP g \<noteq> []" and "widthP g \<le> 4294967295"
  shows "startClickP g c1 c2 =
           Inr \<lparr>heightP = heightP g, widthP = widthP g,
                players = [length (heap g), Suc (length (heap g))], currPlayerP = 0,
                boardP = replicate (heightP g) (emptyRow (widthP g)), gameOverP = False,
                heap = heap g @ [c1, c2]\<rparr>"
  using assms
  by (simp add: startClickP_def resetGameP_def makeBoardP_def makeBoardLoopP_ok Let_def
        setPlayers_def newPlayer_def)

lemma startClick_big:
  "4294967295 < w \<Longrightarrow>
   startClick (newGame h w) = (if h = 0 then Inr (emptyGame h w) else Inl RangeError)"
  by (cases h) (simp_all add: startClick_def newGame_def makeBoard_def Array_from_big emptyGame_def)

lemma startClickP_big:
  "4294967295 < w \<Longrightarrow>
   startClickP (newGameP h w) c1 c2 =
     (if h = 0 then Inr (emptyGameP h w c1 c2) else Inl RangeError)"
  by (cases h)
    (simp_all add: startClickP_def newGameP_def makeBoardP_def Array_from_big emptyGameP_def
       setPlayers_def newPlayer_def)

text \<open>
  Claim C7 says that a reset makes player 1 the active player. In \<open>connect4.js\<close>
  \<open>resetGame\<close> does not touch \<open>currPlayer\<close>: after one move on the empty 6 by 7 board
  player 2 is active, and a click on the start button gives the empty board with player
  2 still active. The lemma \<open>startClickP_restart\<close> above shows the second variant, whose
  \<open>resetGame\<close> sets \<open>currPlayer\<close> to \<open>0\<close>, doing what the claim says.
\<close>

theorem restart_keeps_active_player:
  "startClick (newGame 6 7) = Inr (emptyGame 6 7) \<and>
   currPlayer (emptyGame 6 7) = 1 \<and>
   currPlayer (snd (handleClick (emptyGame 6 7) 3)) = 2 \<and>
   startClick (snd (handleClick (emptyGame 6 7) 3)) = Inr ((emptyGame 6 7)\<lparr>currPlayer := 2\<rparr>)"
proof -
  have s: "startClick (newGame 6 7) = Inr (emptyGame 6 7)" "currPlayer (emptyGame 6 7) = 1"
    by (simp_all add: startClick_newGame emptyGame_def)
  define g where "g = snd (handleClick (emptyGame 6 7) 3)"
  have f: "height g = 6" "width g = 7" "currPlayer g = 2" "board g \<noteq> []"
    unfolding g_def by code_simp+
  have e: "height (emptyGame 6 7) = 6" "width (emptyGame 6 7) = 7"
    "board (emptyGame 6 7) = replicate 6 (emptyRow 7)" "\<not> gameOver (emptyGame 6 7)"
    by (simp_all add: emptyGame_def)
  have "startClick g =
      Inr (g\<lparr>board := replicate (height g) (emptyRow (width g)), gameOver := False\<rparr>)"
    using f by (intro startClick_restart) simp_all
  moreover have "g\<lparr>board := replicate (height g) (emptyRow (width g)), gameOver := False\<rparr> =
      (emptyGame 6 7)\<lparr>currPlayer := 2\<rparr>"
    by (rule game.equality) (simp_all add: f e)
  ultimately show ?thesis using f(3) s unfolding g_def by simp
qed

section \<open>The two variants correspond\<close>

subsection \<open>Cells and rows\<close>

lemma truthy_convCell: "playerCell v \<Longrightarrow> truthy (convCell p0 p1 v) = truthy v"
  by (auto simp add: playerCell_def convCell_def)

lemma convCell_inj:
  "p0 \<noteq> p1 \<Longrightarrow> playerCell v \<Longrightarrow> playerCell v' \<Longrightarrow>
   (convCell p0 p1 v = convCell p0 p1 v') = (v = v')"
  by (auto simp add: playerCell_def convCell_def)

lemma corrRow_aget:
  "corrRow p0 p1 ra rb \<Longrightarrow> aget rb k = convCell p0 p1 (aget ra k) \<and> playerCell (aget ra k)"
  unfolding corrRow_def aget_def
  by (cases "props ra k") (auto simp add: convCell_def playerCell_def dest: spec [of _ k])

lemma corrRow_aset:
  assumes "corrRow p0 p1 ra rb" and "playerCell v"
  shows "corrRow p0 p1 (aset ra k v) (aset rb k (convCell p0 p1 v))"
proof -
  have l: "len rb = len ra"
    and p: "\<And>k. case props ra k of None \<Rightarrow> props rb k = None
                | Some v \<Rightarrow> playerCell v \<and> props rb k = Some (convCell p0 p1 v)"
    using assms(1) by (simp_all add: corrRow_def)
  have "len (aset rb k (convCell p0 p1 v)) = len (aset ra k v)"
    using l by (simp add: aset_def)
  moreover have "case props (aset ra k v) k' of
        None \<Rightarrow> props (aset rb k (convCell p0 p1 v)) k' = None
      | Some u \<Rightarrow> playerCell u \<and>
          props (aset rb k (convCell p0 p1 v)) k' = Some (convCell p0 p1 u)" for k'
    using p [of k'] assms(2)
    by (cases "k' = k") (simp_all add: props_aset split: option.splits)
  ultimately show ?thesis by (simp add: corrRow_def)
qed

lemma corrRow_aevery:
  assumes "corrRow p0 p1 ra rb"
  shows "aevery truthy rb = aevery truthy ra"
proof -
  have "(case props rb k of None \<Rightarrow> True | Some v \<Rightarrow> truthy v) =
        (case props ra k of None \<Rightarrow> True | Some v \<Rightarrow> truthy v)" for k
    using assms unfolding corrRow_def
    by (cases "props ra k") (auto simp add: truthy_convCell dest: spec [of _ k])
  moreover have "len rb = len ra"
    using assms by (simp add: corrRow_def)
  ultimately show ?thesis by (simp add: aevery_def)
qed

subsection \<open>The functions of the two variants agree on corresponding states\<close>

lemma corr_playerNow:
  "corr a b \<Longrightarrow>
   playerNow b = convCell (players b ! 0) (players b ! 1) (Num (currPlayer a)) \<and>
   playerNow b \<noteq> Undefined \<and> playerCell (Num (currPlayer a))"
  by (auto simp add: corr_def playerNow_def convCell_def playerCell_def)

lemma corr_getCell:
  assumes "corr a b"
  shows "getCellP b y x =
           (case getCell a y x of Inl e \<Rightarrow> Inl e
            | Inr v \<Rightarrow> Inr (convCell (players b ! 0) (players b ! 1) v))"
    and "getCell a y x = Inr v \<Longrightarrow> playerCell v"
proof -
  from assms have l: "list_all2 (corrRow (players b ! 0) (players b ! 1)) (board a) (boardP b)"
    by (simp add: corr_def)
  then have len: "length (boardP b) = length (board a)"
    by (simp add: list_all2_lengthD)
  have r: "corrRow (players b ! 0) (players b ! 1) (board a ! y) (boardP b ! y)"
    if "y < length (board a)"
    using l that by (simp add: list_all2_nthD)
  show "getCellP b y x =
           (case getCell a y x of Inl e \<Rightarrow> Inl e
            | Inr v \<Rightarrow> Inr (convCell (players b ! 0) (players b ! 1) v))"
    using len corrRow_aget [OF r] by (simp add: getCellP_def getCell_def)
  show "getCell a y x = Inr v \<Longrightarrow> playerCell v"
    using corrRow_aget [OF r] by (auto simp add: getCell_def split: if_splits)
qed

lemma corr_findSpotLoop:
  assumes "corr a b"
  shows "findSpotLoopP b x n = findSpotLoop a x n"
proof (induction n)
  case 0
  show ?case by simp
next
  case (Suc n)
  show ?case
  proof (cases "getCell a n x")
    case (Inl e)
    then show ?thesis by (simp add: corr_getCell(1) [OF assms])
  next
    case (Inr v)
    with corr_getCell(2) [OF assms] have "playerCell v" by blast
    with Inr Suc show ?thesis
      by (simp add: corr_getCell(1) [OF assms] truthy_convCell)
  qed
qed

lemma corr_findSpotForCol: "corr a b \<Longrightarrow> findSpotForColP b x = findSpotForCol a x"
  by (simp add: findSpotForColP_def findSpotForCol_def corr_findSpotLoop corr_def)

lemma corr_winCell:
  assumes "corr a b"
  shows "winCellP b c = winCell a c"
proof (cases c)
  case (Pair y x)
  have d: "heightP b = height a" "widthP b = width a" "players b ! 0 \<noteq> players b ! 1"
    using assms by (simp_all add: corr_def)
  note p = corr_playerNow [OF assms]
  show ?thesis
  proof (cases "getCell a y x")
    case (Inl e)
    with Pair d show ?thesis
      by (simp add: winCellP_def winCell_def corr_getCell(1) [OF assms])
  next
    case (Inr v)
    with corr_getCell(2) [OF assms] have "playerCell v" by blast
    with Inr Pair d p show ?thesis
      by (simp add: winCellP_def winCell_def corr_getCell(1) [OF assms] convCell_inj)
  qed
qed

lemma corr_win:
  assumes "corr a b"
  shows "winP b cells = win a cells"
proof -
  have "winCellP b = winCell a"
    using corr_winCell [OF assms] by (intro ext)
  then show ?thesis by (simp add: winP_def win_def)
qed

lemma corr_winHere: "corr a b \<Longrightarrow> winHereP b y x = winHere a y x"
  by (simp add: winHereP_def winHere_def corr_win)

lemma corr_checkCols: "corr a b \<Longrightarrow> checkColsP b y xs = checkCols a y xs"
  by (induction xs) (simp_all add: corr_winHere split: sum.splits bool.splits)

lemma corr_checkRows: "corr a b \<Longrightarrow> checkRowsP b ys = checkRows a ys"
proof (induction ys)
  case Nil
  show ?case by simp
next
  case (Cons y ys)
  from Cons.prems have "widthP b = width a" by (simp add: corr_def)
  with Cons show ?case
    by (simp add: corr_checkCols split: sum.splits bool.splits)
qed

lemma corr_checkForWin: "corr a b \<Longrightarrow> checkForWinP b = checkForWin a"
  by (simp add: checkForWinP_def checkForWin_def corr_checkRows corr_def)

lemma corr_boardFull:
  assumes "corr a b"
  shows "boardFullP b = boardFull a"
proof -
  from assms have l: "list_all2 (corrRow (players b ! 0) (players b ! 1)) (board a) (boardP b)"
    by (simp add: corr_def)
  then have "list_all (aevery truthy) (boardP b) = list_all (aevery truthy) (board a)"
    by (induction rule: list_all2_induct) (simp_all add: corrRow_aevery)
  then show ?thesis by (simp add: boardFullP_def boardFull_def)
qed

lemma corr_setCell:
  assumes "corr a b"
  shows "case setCell a y x (Num (currPlayer a)) of
           Inl e \<Rightarrow> setCellP b y x (playerNow b) = Inl e
         | Inr a1 \<Rightarrow> (\<exists>b1. setCellP b y x (playerNow b) = Inr b1 \<and> corr a1 b1)"
proof -
  let ?p0 = "players b ! 0" and ?p1 = "players b ! 1"
  from assms have l: "list_all2 (corrRow ?p0 ?p1) (board a) (boardP b)"
    by (simp add: corr_def)
  then have len: "length (boardP b) = length (board a)"
    by (simp add: list_all2_lengthD)
  note p = corr_playerNow [OF assms]
  show ?thesis
  proof (cases "y < length (board a)")
    case False
    with len show ?thesis by (simp add: setCell_def setCellP_def)
  next
    case True
    then have "corrRow ?p0 ?p1 (board a ! y) (boardP b ! y)"
      using l by (simp add: list_all2_nthD)
    then have "corrRow ?p0 ?p1 (aset (board a ! y) x (Num (currPlayer a)))
                 (aset (boardP b ! y) x (playerNow b))"
      using p corrRow_aset by simp
    with l have "list_all2 (corrRow ?p0 ?p1)
        ((board a)[y := aset (board a ! y) x (Num (currPlayer a))])
        ((boardP b)[y := aset (boardP b ! y) x (playerNow b)])"
      by (simp add: list_all2_update_cong)
    with True len assms show ?thesis
      by (simp add: setCell_def setCellP_def corr_def)
  qed
qed

lemma corr_placeInTable: "corr a b \<Longrightarrow> placeInTableP b y x = placeInTable a y x"
  using corr_playerNow [of a b] by (auto simp add: placeInTableP_def placeInTable_def corr_def)

lemma corr_endGame: "corr a b \<Longrightarrow> corr (endGame a) (endGameP b)"
  by (simp add: corr_def endGame_def endGameP_def)

lemma corr_switch:
  "corr a b \<Longrightarrow>
   corr (a\<lparr>currPlayer := (if currPlayer a = 1 then 2 else 1)\<rparr>)
        (b\<lparr>currPlayerP := (if currPlayerP b = 0 then 1 else 0)\<rparr>)"
  by (auto simp add: corr_def)

lemma corr_message: "corr a b \<Longrightarrow> currPlayerP b + 1 = currPlayer a"
  by (auto simp add: corr_def)

lemma corr_handleClick:
  assumes "corr a b"
  shows "fst (handleClickP b x) = fst (handleClick a x) \<and>
         corr (snd (handleClick a x)) (snd (handleClickP b x))"
proof (cases "gameOver a")
  case True
  with assms have "gameOverP b" by (simp add: corr_def)
  with True assms show ?thesis by (simp add: handleClick_def handleClickP_def)
next
  case False
  with assms have nb: "\<not> gameOverP b" by (simp add: corr_def)
  note s = corr_findSpotForCol [OF assms, of x]
  show ?thesis
  proof (cases "findSpotForCol a x")
    case (Inl e)
    with False nb s assms show ?thesis by (simp add: handleClick_def handleClickP_def)
  next
    case (Inr r)
    show ?thesis
    proof (cases r)
      case None
      with Inr False nb s assms show ?thesis by (simp add: handleClick_def handleClickP_def)
    next
      case (Some y)
      show ?thesis
      proof (cases "setCell a y x (Num (currPlayer a))")
        case (Inl e)
        with corr_setCell [OF assms, of y x] have "setCellP b y x (playerNow b) = Inl e"
          by simp
        with Inl Inr Some False nb s assms show ?thesis
          by (simp add: handleClick_def handleClickP_def)
      next
        case a1: (Inr a1)
        with corr_setCell [OF assms, of y x]
        obtain b1 where b1: "setCellP b y x (playerNow b) = Inr b1" and c1: "corr a1 b1"
          by auto
        have ha: "handleClick a x =
          (case placeInTable a1 y x of
             Inl e \<Rightarrow> (Threw e, a1)
           | Inr u \<Rightarrow>
               (case checkForWin a1 of
                  Inl e \<Rightarrow> (Threw e, a1)
                | Inr True \<Rightarrow> (Ended (PlayerWon (currPlayer a1)), endGame a1)
                | Inr False \<Rightarrow>
                    if boardFull a1 then (Ended Tie, endGame a1)
                    else (Moved, a1\<lparr>currPlayer := (if currPlayer a1 = 1 then 2 else 1)\<rparr>)))"
          using False Inr Some a1 by (simp add: handleClick_def)
        have hb: "handleClickP b x =
          (case placeInTableP b1 y x of
             Inl e \<Rightarrow> (Threw e, b1)
           | Inr u \<Rightarrow>
               (case checkForWinP b1 of
                  Inl e \<Rightarrow> (Threw e, b1)
                | Inr True \<Rightarrow> (Ended (PlayerWon (currPlayerP b1 + 1)), endGameP b1)
                | Inr False \<Rightarrow>
                    if boardFullP b1 then (Ended Tie, endGameP b1)
                    else (Moved, b1\<lparr>currPlayerP := (if currPlayerP b1 = 0 then 1 else 0)\<rparr>)))"
          using nb s Inr Some b1 by (simp add: handleClickP_def)
        note eqs = corr_placeInTable [OF c1, of y x] corr_checkForWin [OF c1]
          corr_boardFull [OF c1] corr_message [OF c1]
        show ?thesis
          unfolding ha hb eqs
          using c1 corr_endGame [OF c1] corr_switch [OF c1]
          by (auto split: sum.splits bool.splits)
      qed
    qed
  qed
qed

lemma snd_playP_Cons: "snd (playP g (x # xs)) = snd (playP (snd (handleClickP g x)) xs)"
  by (simp split: prod.splits)

lemma fst_play_Cons:
  "fst (play g (x # xs)) = fst (handleClick g x) # fst (play (snd (handleClick g x)) xs)"
  by (simp split: prod.splits)

lemma fst_playP_Cons:
  "fst (playP g (x # xs)) = fst (handleClickP g x) # fst (playP (snd (handleClickP g x)) xs)"
  by (simp split: prod.splits)

lemma corr_play:
  "corr a b \<Longrightarrow>
   fst (playP b xs) = fst (play a xs) \<and> corr (snd (play a xs)) (snd (playP b xs))"
proof (induction xs arbitrary: a b)
  case Nil
  then show ?case by simp
next
  case (Cons x xs)
  note h = corr_handleClick [OF Cons.prems, of x]
  from Cons.IH [OF h [THEN conjunct2]] h [THEN conjunct1]
  show ?case
    by (simp only: snd_play_Cons snd_playP_Cons fst_play_Cons fst_playP_Cons)
qed

subsection \<open>From the first click on the start button\<close>

lemma corr_emptyGame: "corr (emptyGame h w) (emptyGameP h w c1 c2)"
  by (simp add: corr_def emptyGame_def emptyGameP_def list_all2_conv_all_nth corrRow_def
        emptyRow_def playerCell_def convCell_def)

lemma start_both:
  assumes "startClick (newGame h w) = Inr a" and "startClickP (newGameP h w) c1 c2 = Inr b"
  shows "a = emptyGame h w \<and> b = emptyGameP h w c1 c2"
proof (cases "w \<le> 4294967295")
  case True
  with assms show ?thesis by (simp add: startClick_newGame startClickP_newGameP)
next
  case False
  with assms show ?thesis
    by (simp add: startClick_big startClickP_big split: if_splits)
qed

text \<open>
  Claim C8. Let both variants be constructed with the same dimensions and started once
  (whatever the two colours). Then after the same clicks, on any columns, the two games
  have shown the same outcomes (the same returns, the same messages, the same
  exceptions), and their states correspond: same dimensions, same \<open>gameOver\<close>, player 1
  active in one exactly when \<open>players[0]\<close> is in the other, and at every key of every
  row a number 1 where the other holds \<open>players[0]\<close>, a number 2 where it holds
  \<open>players[1]\<close>, and nothing else. As the list of clicks is arbitrary, this holds after
  every step.
\<close>

theorem variants_equivalent:
  assumes "startClick (newGame h w) = Inr a" and "startClickP (newGameP h w) c1 c2 = Inr b"
  shows "fst (playP b xs) = fst (play a xs) \<and> corr (snd (play a xs)) (snd (playP b xs))"
proof -
  from start_both [OF assms] have "corr a b"
    by (simp add: corr_emptyGame)
  then show ?thesis by (rule corr_play)
qed

text \<open>The scenario of the specification, played in both variants.\<close>

theorem variants_equivalent_witness:
  "startClick (newGame 6 7) = Inr (emptyGame 6 7) \<and>
   startClickP (newGameP 6 7) ''red'' ''blue'' = Inr (emptyGameP 6 7 ''red'' ''blue'') \<and>
   fst (playP (emptyGameP 6 7 ''red'' ''blue'') [0, 1, 0, 1, 0, 1, 0]) =
     fst (play (emptyGame 6 7) [0, 1, 0, 1, 0, 1, 0]) \<and>
   corr wonGame wonGameP"
proof -
  have a: "startClick (newGame 6 7) = Inr (emptyGame 6 7)"
    by (simp add: startClick_newGame)
  have b: "startClickP (newGameP 6 7) ''red'' ''blue'' = Inr (emptyGameP 6 7 ''red'' ''blue'')"
    by (simp add: startClickP_newGameP)
  from variants_equivalent [OF a b, of "[0, 1, 0, 1, 0, 1, 0]"] a b
  show ?thesis unfolding wonGame_def wonGameP_def by blast
qed

end
